theory Spec2Isabelle
  imports Complex_Main
begin

section \<open>JavaScript numbers\<close>

text \<open>
  A JavaScript \<open>number\<close> is a double. It is modelled as a real, one of the two
  infinities, or NaN. NaN and the infinities are kept because division by zero produces
  them (\<open>0/0\<close> is NaN, \<open>x/0\<close> is an infinity) where HOL's division would silently
  return \<open>0\<close>.

  The range of the doubles is modelled. A finite result whose magnitude reaches
  \<open>2^1024 - 2^970\<close>, the midpoint between the largest double and \<open>2^1024\<close>, is an
  infinity. A product or quotient whose magnitude is at most \<open>2^-1075\<close>, half the
  smallest positive double, is zero; a sum of two doubles is never rounded to zero.
  Inside that range the result of an operation on reals is the exact real: the rounding
  of the mantissa is not modelled there, nor is the sign of zero. For natural numbers the
  rounding is modelled as well, see \<open>roundNat\<close> below.
\<close>

datatype jsnum = Num real | PosInf | NegInf | NaN

definition overflowAt :: real where
  "overflowAt = 2 ^ 1024 - 2 ^ 970"

definition underflowAt :: real where
  "underflowAt = 1 / 2 ^ 1075"

text \<open>The double for the exact value of a sum or a difference.\<close>

definition fromSum :: "real \<Rightarrow> jsnum" where
  "fromSum x = (if overflowAt \<le> x then PosInf else if x \<le> - overflowAt then NegInf else Num x)"

text \<open>The double for the exact value of a product or a quotient.\<close>

definition fromReal :: "real \<Rightarrow> jsnum" where
  "fromReal x = (if \<bar>x\<bar> \<le> underflowAt then Num 0 else fromSum x)"

fun jdiv :: "jsnum \<Rightarrow> jsnum \<Rightarrow> jsnum" where
  "jdiv NaN _ = NaN"
| "jdiv _ NaN = NaN"
| "jdiv (Num a) (Num b) =
     (if b = 0 then (if a = 0 then NaN else if 0 < a then PosInf else NegInf)
      else fromReal (a / b))"
| "jdiv (Num a) PosInf = Num 0"
| "jdiv (Num a) NegInf = Num 0"
| "jdiv PosInf (Num b) = (if 0 \<le> b then PosInf else NegInf)"
| "jdiv NegInf (Num b) = (if 0 \<le> b then NegInf else PosInf)"
| "jdiv PosInf _ = NaN"
| "jdiv NegInf _ = NaN"

fun jmul :: "jsnum \<Rightarrow> jsnum \<Rightarrow> jsnum" where
  "jmul NaN _ = NaN"
| "jmul _ NaN = NaN"
| "jmul (Num a) (Num b) = fromReal (a * b)"
| "jmul (Num a) PosInf = (if a = 0 then NaN else if 0 < a then PosInf else NegInf)"
| "jmul (Num a) NegInf = (if a = 0 then NaN else if 0 < a then NegInf else PosInf)"
| "jmul PosInf (Num b) = (if b = 0 then NaN else if 0 < b then PosInf else NegInf)"
| "jmul NegInf (Num b) = (if b = 0 then NaN else if 0 < b then NegInf else PosInf)"
| "jmul PosInf PosInf = PosInf"
| "jmul PosInf NegInf = NegInf"
| "jmul NegInf PosInf = NegInf"
| "jmul NegInf NegInf = PosInf"

fun jadd :: "jsnum \<Rightarrow> jsnum \<Rightarrow> jsnum" where
  "jadd NaN _ = NaN"
| "jadd _ NaN = NaN"
| "jadd (Num a) (Num b) = fromSum (a + b)"
| "jadd (Num a) PosInf = PosInf"
| "jadd (Num a) NegInf = NegInf"
| "jadd PosInf (Num b) = PosInf"
| "jadd NegInf (Num b) = NegInf"
| "jadd PosInf PosInf = PosInf"
| "jadd NegInf NegInf = NegInf"
| "jadd PosInf NegInf = NaN"
| "jadd NegInf PosInf = NaN"

fun jneg :: "jsnum \<Rightarrow> jsnum" where
  "jneg (Num a) = Num (- a)"
| "jneg PosInf = NegInf"
| "jneg NegInf = PosInf"
| "jneg NaN = NaN"

definition jsub :: "jsnum \<Rightarrow> jsnum \<Rightarrow> jsnum" where
  "jsub a b = jadd a (jneg b)"

text \<open>The comparison \<open>a < b\<close>: false as soon as one side is NaN.\<close>

fun jless :: "jsnum \<Rightarrow> jsnum \<Rightarrow> bool" where
  "jless NaN _ = False"
| "jless _ NaN = False"
| "jless (Num a) (Num b) = (a < b)"
| "jless (Num a) PosInf = True"
| "jless (Num a) NegInf = False"
| "jless PosInf _ = False"
| "jless NegInf (Num b) = True"
| "jless NegInf PosInf = True"
| "jless NegInf NegInf = False"

text \<open>The comparison \<open>a >= b\<close>: false as soon as one side is NaN.\<close>

fun jge :: "jsnum \<Rightarrow> jsnum \<Rightarrow> bool" where
  "jge NaN _ = False"
| "jge _ NaN = False"
| "jge (Num a) (Num b) = (b \<le> a)"
| "jge (Num a) PosInf = False"
| "jge (Num a) NegInf = True"
| "jge PosInf _ = True"
| "jge NegInf (Num b) = False"
| "jge NegInf PosInf = False"
| "jge NegInf NegInf = True"

text \<open>\<open>Math.min\<close> of two numbers: NaN if either argument is NaN.\<close>

fun jmin :: "jsnum \<Rightarrow> jsnum \<Rightarrow> jsnum" where
  "jmin NaN _ = NaN"
| "jmin _ NaN = NaN"
| "jmin NegInf _ = NegInf"
| "jmin _ NegInf = NegInf"
| "jmin PosInf b = b"
| "jmin a PosInf = a"
| "jmin (Num a) (Num b) = Num (min a b)"

definition isNaN :: "jsnum \<Rightarrow> bool" where
  "isNaN v = (v = NaN)"

subsection \<open>Doubles that are natural numbers\<close>

text \<open>
  The values read from a pie chart and their running total are natural numbers or
  \<open>Infinity\<close>. A natural number up to \<open>2^53\<close> is a double. A larger one is rounded to
  53 significant bits, to the nearest double and to the even one of two equally near;
  a result that reaches \<open>2^1024\<close> is \<open>Infinity\<close>.
\<close>

datatype natDouble = Fin nat | Infinite

text \<open>The number of binary digits of a natural number.\<close>

fun bitlen :: "nat \<Rightarrow> nat" where
  "bitlen n = (if n = 0 then 0 else Suc (bitlen (n div 2)))"

declare bitlen.simps [simp del]

definition roundNat :: "nat \<Rightarrow> natDouble" where
  "roundNat n =
     (if n \<le> 2 ^ 53 then Fin n
      else if 2 ^ 1024 \<le> n then Infinite
      else (let e = bitlen n - 53; q = n div 2 ^ e; r = n mod 2 ^ e;
                q1 = (if 2 ^ e < 2 * r then q + 1
                      else if 2 * r = 2 ^ e then (if even q then q else q + 1)
                      else q)
            in if 2 ^ 1024 \<le> q1 * 2 ^ e then Infinite else Fin (q1 * 2 ^ e)))"

text \<open>The sum of two such doubles.\<close>

fun addNat :: "natDouble \<Rightarrow> natDouble \<Rightarrow> natDouble" where
  "addNat (Fin a) (Fin b) = roundNat (a + b)"
| "addNat _ _ = Infinite"

fun toNum :: "natDouble \<Rightarrow> jsnum" where
  "toNum (Fin n) = Num (real n)"
| "toNum Infinite = PosInf"

section \<open>Strings and regular expressions\<close>

text \<open>
  Diagram texts are JavaScript strings. They are modelled as lists of 8-bit
  characters, that is, texts whose UTF-16 code units are all below 256; the
  character classes below are the JavaScript ones restricted to that range.
\<close>

definition charCode :: "char \<Rightarrow> nat" where
  "charCode c = of_char c"

text \<open>White space and line terminators: what \<open>\s\<close> matches and \<open>trim\<close> removes.\<close>

definition isSpace :: "char \<Rightarrow> bool" where
  "isSpace c = (charCode c \<in> {9, 10, 11, 12, 13, 32, 160})"

definition isDigit :: "char \<Rightarrow> bool" where
  "isDigit c = (48 \<le> charCode c \<and> charCode c \<le> 57)"

definition isWord :: "char \<Rightarrow> bool" where
  "isWord c = ((65 \<le> charCode c \<and> charCode c \<le> 90) \<or> (97 \<le> charCode c \<and> charCode c \<le> 122)
               \<or> isDigit c \<or> charCode c = 95)"

definition isLineTerminator :: "char \<Rightarrow> bool" where
  "isLineTerminator c = (charCode c = 10 \<or> charCode c = 13)"

text \<open>
  Case folding of the \<open>i\<close> flag: a lower-case ASCII letter is compared as its
  upper-case form. No character outside ASCII folds to an ASCII letter, and every
  literal of the patterns below is ASCII.
\<close>

definition canonicalize :: "char \<Rightarrow> char" where
  "canonicalize c = (if 97 \<le> charCode c \<and> charCode c \<le> 122 then char_of (charCode c - 32) else c)"

text \<open>\<open>toLowerCase\<close> on the 8-bit range: the ASCII and the Latin-1 capital letters.\<close>

definition toLowerChar :: "char \<Rightarrow> char" where
  "toLowerChar c =
     (if (65 \<le> charCode c \<and> charCode c \<le> 90)
         \<or> (192 \<le> charCode c \<and> charCode c \<le> 222 \<and> charCode c \<noteq> 215)
      then char_of (charCode c + 32) else c)"

definition toLowerCase :: "string \<Rightarrow> string" where
  "toLowerCase s = map toLowerChar s"

definition trim :: "string \<Rightarrow> string" where
  "trim s = rev (dropWhile isSpace (rev (dropWhile isSpace s)))"

fun startsWith :: "string \<Rightarrow> string \<Rightarrow> bool" where
  "startsWith s [] = True"
| "startsWith [] (p # ps) = False"
| "startsWith (c # cs) (p # ps) = (c = p \<and> startsWith cs ps)"

text \<open>\<open>s.split("\n")\<close>: the pieces between line feeds; an empty string gives one empty piece.\<close>

fun splitLines :: "string \<Rightarrow> string list" where
  "splitLines [] = [[]]"
| "splitLines (c # cs) =
     (if c = CHR 0x0A then [] # splitLines cs
      else (case splitLines cs of l # ls \<Rightarrow> (c # l) # ls | [] \<Rightarrow> [[c]]))"

text \<open>The natural number a run of decimal digits writes.\<close>

definition digitsValue :: "string \<Rightarrow> nat" where
  "digitsValue ds = foldl (\<lambda>acc c. 10 * acc + (charCode c - 48)) 0 ds"

text \<open>
  \<open>parseFloat\<close> of a run of decimal digits, the only strings the pie parser hands to
  it: the double nearest to the number written, \<open>Infinity\<close> from \<open>2^1024 - 2^970\<close> on.
\<close>

definition parseFloat :: "string \<Rightarrow> natDouble" where
  "parseFloat ds = roundNat (digitsValue ds)"

text \<open>The decimal rendering of a counter inside a template literal.\<close>

fun showDigits :: "nat \<Rightarrow> nat \<Rightarrow> string" where
  "showDigits 0 n = []"
| "showDigits (Suc fuel) n =
     (if n < 10 then [char_of (48 + n)]
      else showDigits fuel (n div 10) @ [char_of (48 + n mod 10)])"

definition showNat :: "nat \<Rightarrow> string" where
  "showNat n = showDigits (Suc n) n"

subsection \<open>A backtracking matcher\<close>

text \<open>
  The patterns of the source use literals, the classes \<open>.\<close>, \<open>\s\<close>, \<open>\w\<close>, \<open>\d\<close>, a
  negated literal, the greedy quantifiers \<open>*\<close>, \<open>+\<close>, \<open>?\<close>, groups and the anchors
  \<open>^\<close> and \<open>$\<close> (without the \<open>m\<close> flag). The matcher returns the ways a pattern can
  match at a position in the order a backtracking engine tries them: the first one is
  the match JavaScript reports.
\<close>

datatype cset = Lit char | NotLit char | Dot | Space | Word | Digit

fun csetMatches :: "bool \<Rightarrow> cset \<Rightarrow> char \<Rightarrow> bool" where
  "csetMatches ci (Lit a) c = (if ci then canonicalize a = canonicalize c else a = c)"
| "csetMatches ci (NotLit a) c = (if ci then canonicalize a \<noteq> canonicalize c else a \<noteq> c)"
| "csetMatches ci Dot c = (\<not> isLineTerminator c)"
| "csetMatches ci Space c = isSpace c"
| "csetMatches ci Word c = isWord c"
| "csetMatches ci Digit c = isDigit c"

datatype regex =
    Eps
  | Atom cset
  | Seq regex regex
  | Star regex
  | Plus regex
  | Opt regex
  | Group nat regex
  | Bol
  | Eol

text \<open>A matcher state: characters consumed so far, the rest, and the groups set so far.\<close>

datatype mstate = MState (mpos: nat) (mrest: string) (mcaps: "(nat \<times> string) list")

text \<open>
  Greedy iteration: one more round first, provided it consumed something, then none.
  The counter starts at the length of the rest, which bounds the number of rounds.
\<close>

fun starIter :: "(mstate \<Rightarrow> mstate list) \<Rightarrow> nat \<Rightarrow> mstate \<Rightarrow> mstate list" where
  "starIter f 0 st = [st]"
| "starIter f (Suc n) st =
     concat (map (\<lambda>st'. if length (mrest st') < length (mrest st) then starIter f n st' else [])
                 (f st)) @ [st]"

lemma starIter_cong [fundef_cong]:
  assumes "\<And>s. f s = g s" and "n = n'" and "st = st'"
  shows "starIter f n st = starIter g n' st'"
proof -
  have "f = g" using assms(1) by auto
  then show ?thesis using assms(2,3) by simp
qed

fun ms :: "bool \<Rightarrow> regex \<Rightarrow> mstate \<Rightarrow> mstate list" where
  "ms ci Eps st = [st]"
| "ms ci (Atom a) st =
     (case mrest st of
        [] \<Rightarrow> []
      | c # cs \<Rightarrow> if csetMatches ci a c then [MState (Suc (mpos st)) cs (mcaps st)] else [])"
| "ms ci (Seq r1 r2) st = concat (map (\<lambda>s. ms ci r2 s) (ms ci r1 st))"
| "ms ci (Star r) st = starIter (\<lambda>s. ms ci r s) (length (mrest st)) st"
| "ms ci (Plus r) st =
     concat (map (\<lambda>s. starIter (\<lambda>s'. ms ci r s') (length (mrest s)) s) (ms ci r st))"
| "ms ci (Opt r) st = ms ci r st @ [st]"
| "ms ci (Group k r) st =
     map (\<lambda>s. MState (mpos s) (mrest s) ((k, take (mpos s - mpos st) (mrest st)) # mcaps s))
         (ms ci r st)"
| "ms ci Bol st = (if mpos st = 0 then [st] else [])"
| "ms ci Eol st = (if mrest st = [] then [st] else [])"

record matchResult =
  matchIndex :: nat
  matchText :: string
  matchGroups :: "(nat \<times> string) list"

text \<open>The leftmost match: the start positions are tried from left to right.\<close>

fun execFrom :: "bool \<Rightarrow> regex \<Rightarrow> nat \<Rightarrow> string \<Rightarrow> matchResult option" where
  "execFrom ci r pos s =
     (case ms ci r (MState pos s []) of
        st # _ \<Rightarrow> Some \<lparr>matchIndex = pos, matchText = take (mpos st - pos) s, matchGroups = mcaps st\<rparr>
      | [] \<Rightarrow> (case s of [] \<Rightarrow> None | _ # s' \<Rightarrow> execFrom ci r (Suc pos) s'))"

text \<open>\<open>s.match(r)\<close> for a pattern without the \<open>g\<close> flag; \<open>ci\<close> is the \<open>i\<close> flag.\<close>

definition match :: "bool \<Rightarrow> regex \<Rightarrow> string \<Rightarrow> matchResult option" where
  "match ci r s = execFrom ci r 0 s"

text \<open>\<open>m[k]\<close>: \<open>None\<close> is \<open>undefined\<close>, a group that took no part in the match.\<close>

definition grp :: "matchResult \<Rightarrow> nat \<Rightarrow> string option" where
  "grp m k = map_of (matchGroups m) k"

text \<open>
  \<open>m[k]\<close> for a group that takes part in every match of its pattern (see
  \<open>match_sets_group\<close>), so that the default is never returned.
\<close>

definition cap :: "matchResult \<Rightarrow> nat \<Rightarrow> string" where
  "cap m k = (case grp m k of Some s \<Rightarrow> s | None \<Rightarrow> [])"

fun seqs :: "regex list \<Rightarrow> regex" where
  "seqs [] = Eps"
| "seqs [r] = r"
| "seqs (r # rs) = Seq r (seqs rs)"

definition lit :: "string \<Rightarrow> regex" where
  "lit s = seqs (map (\<lambda>c. Atom (Lit c)) s)"

section \<open>Pie chart parser\<close>

record PieSegment =
  segLabel :: string
  segValue :: natDouble
  segColor :: string
  startAngle :: jsnum
  endAngle :: jsnum

record pieData =
  segments :: "PieSegment list"
  title :: string

record rawSegment =
  rawLabel :: string
  rawValue :: natDouble

definition colors :: "string list" where
  "colors = [''#4e79a7'', ''#f28e2b'', ''#e15759'', ''#76b7b2'', ''#59a14f'',
             ''#edc948'', ''#b07aa1'', ''#ff9da7'', ''#9c755f'', ''#bab0ac'']"

text \<open>\<^verbatim>\<open>/pie\s+title\s+(.+)/i\<close>\<close>

definition rxPieTitle :: regex where
  "rxPieTitle = seqs [lit ''pie'', Plus (Atom Space), lit ''title'', Plus (Atom Space),
                      Group 1 (Plus (Atom Dot))]"

text \<open>\<^verbatim>\<open>/"([^"]+)"\s*:\s*(\d+)/\<close>\<close>

definition rxPieEntry :: regex where
  "rxPieEntry = seqs [Atom (Lit (CHR 0x22)), Group 1 (Plus (Atom (NotLit (CHR 0x22)))),
                      Atom (Lit (CHR 0x22)), Star (Atom Space), lit '':'', Star (Atom Space),
                      Group 2 (Plus (Atom Digit))]"

text \<open>The title: matched against the whole diagram text, not line by line.\<close>

definition pieTitle :: "string \<Rightarrow> string" where
  "pieTitle diagram =
     (case match True rxPieTitle diagram of
        Some titleMatch \<Rightarrow> trim (cap titleMatch 1)
      | None \<Rightarrow> ''Pie Chart'')"

text \<open>
  The first \<open>forEach\<close> over the lines; the state is \<open>rawSegments\<close> and \<open>totalValue\<close>.
\<close>

definition pieRawStep ::
  "rawSegment list \<times> natDouble \<Rightarrow> string \<Rightarrow> rawSegment list \<times> natDouble" where
  "pieRawStep acc line =
     (case match False rxPieEntry line of
        Some m \<Rightarrow>
          (let v = parseFloat (cap m 2) in
           (fst acc @ [\<lparr>rawLabel = cap m 1, rawValue = v\<rparr>], addNat (snd acc) v))
      | None \<Rightarrow> acc)"

definition pieRaw :: "string \<Rightarrow> rawSegment list \<times> natDouble" where
  "pieRaw diagram = foldl pieRawStep ([], Fin 0) (splitLines diagram)"

text \<open>
  The second \<open>forEach\<close>, over \<open>rawSegments\<close> with its index; the state is \<open>segments\<close>
  and \<open>currentAngle\<close>.
\<close>

definition pieLayoutStep ::
  "natDouble \<Rightarrow> PieSegment list \<times> jsnum \<Rightarrow> nat \<times> rawSegment \<Rightarrow> PieSegment list \<times> jsnum" where
  "pieLayoutStep totalValue acc si =
     (let i = fst si; seg = snd si; currentAngle = snd acc;
          angle = jmul (jmul (jdiv (toNum (rawValue seg)) (toNum totalValue)) (Num pi)) (Num 2)
      in (fst acc @ [\<lparr>segLabel = rawLabel seg, segValue = rawValue seg,
                       segColor = colors ! (i mod length colors),
                       startAngle = currentAngle, endAngle = jadd currentAngle angle\<rparr>],
          jadd currentAngle angle))"

definition pieLayout :: "rawSegment list \<Rightarrow> natDouble \<Rightarrow> PieSegment list" where
  "pieLayout rawSegments totalValue =
     fst (foldl (pieLayoutStep totalValue) ([], Num (- pi / 2))
                (enumerate 0 rawSegments))"

definition parsePieChart :: "string \<Rightarrow> pieData" where
  "parsePieChart diagram =
     \<lparr>segments = pieLayout (fst (pieRaw diagram)) (snd (pieRaw diagram)),
      title = pieTitle diagram\<rparr>"

section \<open>Sequence diagram parser\<close>

datatype lineStyle = solid | dashed

record SequenceActor =
  actorName :: string
  actorX :: real

record SequenceMessage =
  msgFrom :: nat
  msgTo :: nat
  msgText :: string
  msgY :: real
  msgType :: lineStyle

record seqData =
  actors :: "SequenceActor list"
  messages :: "SequenceMessage list"
  height :: real

text \<open>\<^verbatim>\<open>/participant\s+(\w+)(?:\s+as\s+(.+))?/i\<close>\<close>

definition rxParticipant :: regex where
  "rxParticipant = seqs [lit ''participant'', Plus (Atom Space), Group 1 (Plus (Atom Word)),
                         Opt (seqs [Plus (Atom Space), lit ''as'', Plus (Atom Space),
                                    Group 2 (Plus (Atom Dot))])]"

text \<open>\<^verbatim>\<open>/(\w+)\s*(--?>>?)\s*(\w+)\s*:\s*(.+)/\<close>\<close>

definition rxMessage :: regex where
  "rxMessage = seqs [Group 1 (Plus (Atom Word)), Star (Atom Space),
                     Group 2 (seqs [lit ''-'', Opt (lit ''-''), lit ''>'', Opt (lit ''>'')]),
                     Star (Atom Space), Group 3 (Plus (Atom Word)), Star (Atom Space),
                     lit '':'', Star (Atom Space), Group 4 (Plus (Atom Dot))]"

text \<open>\<open>s.includes(p)\<close>\<close>

fun strIncludes :: "string \<Rightarrow> string \<Rightarrow> bool" where
  "strIncludes [] p = (p = [])"
| "strIncludes (c # cs) p = (startsWith (c # cs) p \<or> strIncludes cs p)"

text \<open>
  Step 1, the \<open>forEach\<close> collecting the actors. The state is the \<open>actors\<close> array, the
  \<open>actorMap\<close> (only read with \<open>get\<close>, so a partial function) and \<open>xPos\<close>.
\<close>

record actorState =
  asActors :: "SequenceActor list"
  asMap :: "string \<rightharpoonup> nat"
  asX :: real

definition actorStep :: "actorState \<Rightarrow> string \<Rightarrow> actorState" where
  "actorStep st line =
     (case match True rxParticipant line of
        Some m \<Rightarrow>
          (let ident = cap m 1;
               displayName =
                 (case grp m 2 of
                    Some d \<Rightarrow> if trim d = [] then ident else trim d
                  | None \<Rightarrow> ident)
           in \<lparr>asActors = asActors st @ [\<lparr>actorName = displayName, actorX = asX st\<rparr>],
               asMap = (asMap st)(ident \<mapsto> length (asActors st)),
               asX = asX st + 180\<rparr>)
      | None \<Rightarrow> st)"

definition seqActors :: "string \<Rightarrow> actorState" where
  "seqActors diagram =
     foldl actorStep \<lparr>asActors = [], asMap = Map.empty, asX = 120\<rparr> (splitLines diagram)"

text \<open>
  Step 2, the \<open>forEach\<close> collecting the messages. The state is the \<open>messages\<close> array
  and \<open>yPos\<close>.
\<close>

definition messageStep ::
  "(string \<rightharpoonup> nat) \<Rightarrow> SequenceMessage list \<times> real \<Rightarrow> string \<Rightarrow> SequenceMessage list \<times> real" where
  "messageStep actorMap st line =
     (case match False rxMessage line of
        Some m \<Rightarrow>
          (let fromId = cap m 1; arrow = cap m 2; toId = cap m 3; text = trim (cap m 4);
               isDashed = strIncludes arrow ''--''
           in case (actorMap fromId, actorMap toId) of
                (Some fromIdx, Some toIdx) \<Rightarrow>
                  (fst st @ [\<lparr>msgFrom = fromIdx, msgTo = toIdx, msgText = text, msgY = snd st,
                              msgType = (if isDashed then dashed else solid)\<rparr>],
                   snd st + 60)
              | _ \<Rightarrow> st)
      | None \<Rightarrow> st)"

definition seqMessages :: "(string \<rightharpoonup> nat) \<Rightarrow> string \<Rightarrow> SequenceMessage list \<times> real" where
  "seqMessages actorMap diagram = foldl (messageStep actorMap) ([], 100) (splitLines diagram)"

definition parseSequence :: "string \<Rightarrow> seqData" where
  "parseSequence diagram =
     (let a = seqActors diagram; ms = seqMessages (asMap a) diagram
      in \<lparr>actors = asActors a, messages = fst ms, height = snd ms + 80\<rparr>)"

section \<open>State diagram parser\<close>

subsection \<open>Insertion-ordered sets and maps\<close>

text \<open>
  A JavaScript \<open>Set\<close> iterates in insertion order; \<open>add\<close> of a present element
  changes nothing. A \<open>Map\<close> iterates in the order of first insertion; \<open>set\<close> on a
  present key replaces the value in place.
\<close>

definition setAdd :: "'a list \<Rightarrow> 'a \<Rightarrow> 'a list" where
  "setAdd s x = (if x \<in> set s then s else s @ [x])"

fun mapSet :: "('k \<times> 'v) list \<Rightarrow> 'k \<Rightarrow> 'v \<Rightarrow> ('k \<times> 'v) list" where
  "mapSet [] k v = [(k, v)]"
| "mapSet (p # ps) k v = (if fst p = k then (k, v) # ps else p # mapSet ps k v)"

definition mapGet :: "('k \<times> 'v) list \<Rightarrow> 'k \<Rightarrow> 'v option" where
  "mapGet m k = map_of m k"

definition mapHas :: "('k \<times> 'v) list \<Rightarrow> 'k \<Rightarrow> bool" where
  "mapHas m k = (k \<in> fst ` set m)"

text \<open>\<open>Array.prototype.indexOf\<close>: the first position of the element, or \<open>-1\<close>.\<close>

fun indexOfFrom :: "int \<Rightarrow> 'a list \<Rightarrow> 'a \<Rightarrow> int" where
  "indexOfFrom k [] x = -1"
| "indexOfFrom k (y # ys) x = (if y = x then k else indexOfFrom (k + 1) ys x)"

definition indexOf :: "'a list \<Rightarrow> 'a \<Rightarrow> int" where
  "indexOf xs x = indexOfFrom 0 xs x"

subsection \<open>States and transitions\<close>

record StateNode =
  stateId :: string
  stateLabel :: string
  stateX :: real
  stateY :: real
  isStart :: bool
  isEnd :: bool

record StateTransition =
  transFrom :: string
  transTo :: string
  transLabel :: "string option"

record stateData =
  stateNodes :: "StateNode list"
  stateTransitions :: "StateTransition list"

text \<open>\<^verbatim>\<open>/\[\*\]\s*-->\s*(\w+)/\<close>\<close>

definition rxStateStart :: regex where
  "rxStateStart = seqs [lit ''[*]'', Star (Atom Space), lit ''-->'', Star (Atom Space),
                        Group 1 (Plus (Atom Word))]"

text \<open>\<^verbatim>\<open>/(\w+)\s*-->\s*\[\*\]$/\<close>\<close>

definition rxStateEnd :: regex where
  "rxStateEnd = seqs [Group 1 (Plus (Atom Word)), Star (Atom Space), lit ''-->'',
                      Star (Atom Space), lit ''[*]'', Eol]"

text \<open>\<^verbatim>\<open>/(\w+)\s*-->\s*(\w+)(?:\s*:\s*(.+))?/\<close>\<close>

definition rxStateTrans :: regex where
  "rxStateTrans = seqs [Group 1 (Plus (Atom Word)), Star (Atom Space), lit ''-->'',
                        Star (Atom Space), Group 2 (Plus (Atom Word)),
                        Opt (seqs [Star (Atom Space), lit '':'', Star (Atom Space),
                                   Group 3 (Plus (Atom Dot))])]"

text \<open>
  Step 1, the \<open>forEach\<close> over the lines. The state is \<open>stateSet\<close> and \<open>transitions\<close>;
  the three patterns are tried in the order of the source, the first match returns.
\<close>

definition stateStep ::
  "string list \<times> StateTransition list \<Rightarrow> string \<Rightarrow> string list \<times> StateTransition list" where
  "stateStep acc line =
     (let trimmed = trim line in
      case match False rxStateStart trimmed of
        Some startMatch \<Rightarrow>
          (setAdd (setAdd (fst acc) ''[*]start'') (cap startMatch 1),
           snd acc @ [\<lparr>transFrom = ''[*]start'', transTo = cap startMatch 1, transLabel = None\<rparr>])
      | None \<Rightarrow>
         (case match False rxStateEnd trimmed of
            Some endMatch \<Rightarrow>
              (setAdd (setAdd (fst acc) (cap endMatch 1)) ''[*]end'',
               snd acc @ [\<lparr>transFrom = cap endMatch 1, transTo = ''[*]end'', transLabel = None\<rparr>])
          | None \<Rightarrow>
             (case match False rxStateTrans trimmed of
                Some transMatch \<Rightarrow>
                  (setAdd (setAdd (fst acc) (cap transMatch 1)) (cap transMatch 2),
                   snd acc @ [\<lparr>transFrom = cap transMatch 1, transTo = cap transMatch 2,
                                transLabel = map_option trim (grp transMatch 3)\<rparr>])
              | None \<Rightarrow> acc)))"

definition stateCollect :: "string \<Rightarrow> string list \<times> StateTransition list" where
  "stateCollect diagram = foldl stateStep ([], []) (splitLines diagram)"

subsection \<open>Levels by breadth-first traversal\<close>

text \<open>The in-degree and adjacency maps: every state first, then one update per transition.\<close>

definition inDegreeStep :: "(string \<times> nat) list \<Rightarrow> StateTransition \<Rightarrow> (string \<times> nat) list" where
  "inDegreeStep inDegree t =
     mapSet inDegree (transTo t) ((case mapGet inDegree (transTo t) of Some n \<Rightarrow> n | None \<Rightarrow> 0) + 1)"

definition adjacencyStep ::
  "(string \<times> string list) list \<Rightarrow> StateTransition \<Rightarrow> (string \<times> string list) list" where
  "adjacencyStep adjacency t =
     (case mapGet adjacency (transFrom t) of
        Some ns \<Rightarrow> mapSet adjacency (transFrom t) (ns @ [transTo t])
      | None \<Rightarrow> adjacency)"

definition stateInDegree :: "string list \<Rightarrow> StateTransition list \<Rightarrow> (string \<times> nat) list" where
  "stateInDegree stateSet ts = foldl inDegreeStep (map (\<lambda>s. (s, 0)) stateSet) ts"

definition stateAdjacency ::
  "string list \<Rightarrow> StateTransition list \<Rightarrow> (string \<times> string list) list" where
  "stateAdjacency stateSet ts = foldl adjacencyStep (map (\<lambda>s. (s, [])) stateSet) ts"

text \<open>The initial queue and levels: in-degree zero, or the synthetic start state.\<close>

definition bfsInitStep ::
  "(string \<times> nat) list \<Rightarrow> string list \<times> (string \<times> nat) list \<Rightarrow> string
     \<Rightarrow> string list \<times> (string \<times> nat) list" where
  "bfsInitStep inDegree acc state =
     (if mapGet inDegree state = Some 0 \<or> state = ''[*]start''
      then (fst acc @ [state], mapSet (snd acc) state 0) else acc)"

text \<open>One neighbour of the current state: a level and a queue entry on the first visit.\<close>

definition bfsVisitStep ::
  "nat \<Rightarrow> (string \<times> nat) list \<times> string list \<Rightarrow> string \<Rightarrow> (string \<times> nat) list \<times> string list" where
  "bfsVisitStep currentLevel acc neighbor =
     (if mapHas (fst acc) neighbor then acc
      else (mapSet (fst acc) neighbor (currentLevel + 1), snd acc @ [neighbor]))"

text \<open>
  The body of the \<open>while\<close> loop after \<open>queue.shift()\<close>: the new \<open>levels\<close> and the new
  queue.
\<close>

definition bfsNext ::
  "(string \<times> string list) list \<Rightarrow> (string \<times> nat) list \<Rightarrow> string \<Rightarrow> string list
     \<Rightarrow> (string \<times> nat) list \<times> string list" where
  "bfsNext adjacency levels current queue =
     (let currentLevel = (case mapGet levels current of Some l \<Rightarrow> l | None \<Rightarrow> 0);
          neighbors = (case mapGet adjacency current of Some ns \<Rightarrow> ns | None \<Rightarrow> [])
      in foldl (bfsVisitStep currentLevel) (levels, queue) neighbors)"

lemma mapSet_keys: "fst ` set (mapSet m k v) = insert k (fst ` set m)"
  by (induction m) auto

lemma foldl_bfsVisitStep_keys:
  "fst ` set (fst (foldl (bfsVisitStep l) acc ns)) = fst ` set (fst acc) \<union> set ns"
proof (induction ns arbitrary: acc)
  case Nil
  then show ?case by simp
next
  case (Cons n ns)
  have "fst ` set (fst (bfsVisitStep l acc n)) = insert n (fst ` set (fst acc))"
    by (auto simp: bfsVisitStep_def mapHas_def mapSet_keys)
  then show ?case using Cons [of "bfsVisitStep l acc n"] by auto
qed

lemma foldl_bfsVisitStep_known:
  "set ns \<subseteq> fst ` set (fst acc) \<Longrightarrow> foldl (bfsVisitStep l) acc ns = acc"
proof (induction ns arbitrary: acc)
  case Nil
  then show ?case by simp
next
  case (Cons n ns)
  then have "bfsVisitStep l acc n = acc" by (simp add: bfsVisitStep_def mapHas_def)
  then show ?case using Cons by simp
qed

text \<open>All ids that occur as a neighbour in the adjacency map.\<close>

definition neighborIds :: "(string \<times> string list) list \<Rightarrow> string set" where
  "neighborIds adjacency = (\<Union>p \<in> set adjacency. set (snd p))"

lemma bfsNext_decreases:
  "(card (neighborIds adj - fst ` set (fst (bfsNext adj levels current queue)))
      < card (neighborIds adj - fst ` set levels))
   \<or> (card (neighborIds adj - fst ` set (fst (bfsNext adj levels current queue)))
      = card (neighborIds adj - fst ` set levels)
      \<and> length (snd (bfsNext adj levels current queue)) < length (current # queue))"
proof -
  define ns where "ns = (case mapGet adj current of Some ns \<Rightarrow> ns | None \<Rightarrow> [])"
  define l where "l = (case mapGet levels current of Some l \<Rightarrow> l | None \<Rightarrow> (0::nat))"
  have nx: "bfsNext adj levels current queue = foldl (bfsVisitStep l) (levels, queue) ns"
    by (simp add: bfsNext_def ns_def l_def)
  have sub: "set ns \<subseteq> neighborIds adj"
  proof (cases "map_of adj current")
    case None
    then show ?thesis by (simp add: ns_def mapGet_def)
  next
    case (Some a)
    then have "(current, a) \<in> set adj" by (rule map_of_SomeD)
    then have "set a \<subseteq> neighborIds adj" by (force simp: neighborIds_def)
    then show ?thesis using Some by (simp add: ns_def mapGet_def)
  qed
  have fin: "finite (neighborIds adj)" by (simp add: neighborIds_def)
  show ?thesis
  proof (cases "set ns \<subseteq> fst ` set levels")
    case True
    then have "bfsNext adj levels current queue = (levels, queue)"
      unfolding nx by (intro foldl_bfsVisitStep_known) simp
    then show ?thesis by simp
  next
    case False
    then obtain n where n: "n \<in> set ns" "n \<notin> fst ` set levels" by auto
    have keys: "fst ` set (fst (bfsNext adj levels current queue)) = fst ` set levels \<union> set ns"
      unfolding nx using foldl_bfsVisitStep_keys [of l "(levels, queue)" ns] by simp
    have "neighborIds adj - (fst ` set levels \<union> set ns) \<subset> neighborIds adj - fst ` set levels"
      using n sub by auto
    then have "card (neighborIds adj - (fst ` set levels \<union> set ns))
        < card (neighborIds adj - fst ` set levels)"
      using fin by (intro psubset_card_mono) auto
    then show ?thesis unfolding keys by simp
  qed
qed

function bfsLevels ::
  "(string \<times> string list) list \<Rightarrow> (string \<times> nat) list \<Rightarrow> string list \<Rightarrow> (string \<times> nat) list" where
  "bfsLevels adjacency levels [] = levels"
| "bfsLevels adjacency levels (current # queue) =
     bfsLevels adjacency (fst (bfsNext adjacency levels current queue))
                         (snd (bfsNext adjacency levels current queue))"
  by pat_completeness auto
termination
proof (relation "measures [\<lambda>p. card (neighborIds (fst p) - fst ` set (fst (snd p))),
                           \<lambda>p. length (snd (snd p))]")
  show "wf (measures [\<lambda>p. card (neighborIds (fst p) - fst ` set (fst (snd p))),
                      \<lambda>p. length (snd (snd p))])"
    by simp
next
  fix adjacency :: "(string \<times> string list) list" and levels :: "(string \<times> nat) list"
    and current :: string and queue :: "string list"
  show "((adjacency, fst (bfsNext adjacency levels current queue),
          snd (bfsNext adjacency levels current queue)),
         (adjacency, levels, current # queue))
        \<in> measures [\<lambda>p. card (neighborIds (fst p) - fst ` set (fst (snd p))),
                     \<lambda>p. length (snd (snd p))]"
    using bfsNext_decreases [of adjacency levels current queue] by auto
qed

text \<open>States the traversal did not reach get level \<open>3\<close>.\<close>

definition defaultLevelStep :: "(string \<times> nat) list \<Rightarrow> string \<Rightarrow> (string \<times> nat) list" where
  "defaultLevelStep levels state = (if mapHas levels state then levels else mapSet levels state 3)"

definition stateLevels :: "string list \<Rightarrow> StateTransition list \<Rightarrow> (string \<times> nat) list" where
  "stateLevels stateSet ts =
     (let inDegree = stateInDegree stateSet ts;
          adjacency = stateAdjacency stateSet ts;
          init = foldl (bfsInitStep inDegree) ([], []) stateSet;
          levels = bfsLevels adjacency (snd init) (fst init)
      in foldl defaultLevelStep levels stateSet)"

subsection \<open>Positions\<close>

definition levelGroupStep ::
  "(nat \<times> string list) list \<Rightarrow> string \<times> nat \<Rightarrow> (nat \<times> string list) list" where
  "levelGroupStep groups sl =
     (let state = fst sl; level = snd sl;
          groups1 = (if mapHas groups level then groups else mapSet groups level [])
      in case mapGet groups1 level of
           Some g \<Rightarrow> mapSet groups1 level (g @ [state])
         | None \<Rightarrow> groups1)"

definition stateNode :: "(string \<times> nat) list \<Rightarrow> (nat \<times> string list) list \<Rightarrow> string \<Rightarrow> StateNode" where
  "stateNode levels levelGroups state =
     (let level = (case mapGet levels state of Some l \<Rightarrow> l | None \<Rightarrow> 0);
          grp = (case mapGet levelGroups level of Some g \<Rightarrow> g | None \<Rightarrow> [state]);
          indexInGroup = indexOf grp state;
          groupSize = length grp
      in \<lparr>stateId = state,
          stateLabel = (if startsWith state ''[*]'' then [] else state),
          stateX = 100 + real level * 180,
          stateY = 300 + (real_of_int indexInGroup - (real groupSize - 1) / 2) * 120,
          isStart = (state = ''[*]start''),
          isEnd = (state = ''[*]end'')\<rparr>)"

definition parseStateDiagram :: "string \<Rightarrow> stateData" where
  "parseStateDiagram diagram =
     (let stateSet = fst (stateCollect diagram);
          ts = snd (stateCollect diagram);
          levels = stateLevels stateSet ts;
          levelGroups = foldl levelGroupStep [] levels
      in \<lparr>stateNodes = map (stateNode levels levelGroups) stateSet, stateTransitions = ts\<rparr>)"

text \<open>
  How the renderer draws a state: one filled circle for the start marker, a ring around
  a filled circle for the end marker, a rounded rectangle with the label otherwise.
\<close>

datatype stateGlyph = filledCircle | doubleRing | roundedBox

definition stateGlyph :: "StateNode \<Rightarrow> stateGlyph" where
  "stateGlyph n = (if isStart n then filledCircle else if isEnd n then doubleRing else roundedBox)"

section \<open>Mindmap parser\<close>

record MindmapNode =
  mmId :: string
  mmLabel :: string
  mmLevel :: nat
  mmX :: real
  mmY :: real
  parentId :: "string option"
  isRoot :: bool

record mindmapConnection =
  connFrom :: string
  connTo :: string

record mindmapData =
  mmNodes :: "MindmapNode list"
  connections :: "mindmapConnection list"

text \<open>An entry of \<open>levelStack\<close>; the root is pushed without a \<open>branchAngle\<close>.\<close>

record stackEntry =
  seId :: string
  seLevel :: nat
  branchAngle :: "real option"

text \<open>\<^verbatim>\<open>/^(\s*)/\<close>\<close>

definition rxIndent :: regex where
  "rxIndent = seqs [Bol, Group 1 (Star (Atom Space))]"

text \<open>\<^verbatim>\<open>/root\(\((.+)\)\)/\<close>\<close>

definition rxRoot :: regex where
  "rxRoot = seqs [lit ''root'', Atom (Lit (CHR ''('')), Atom (Lit (CHR ''('')),
                  Group 1 (Plus (Atom Dot)),
                  Atom (Lit (CHR '')'')), Atom (Lit (CHR '')''))]"

text \<open>The lines both passes skip: blank ones and the \<open>mindmap\<close> header.\<close>

definition skipLine :: "string \<Rightarrow> bool" where
  "skipLine line = (trim line = [] \<or> startsWith (toLowerCase (trim line)) ''mindmap'')"

text \<open>\<open>Math.floor(indent / 4)\<close>, where \<open>indent\<close> is the length of the leading white space.\<close>

definition lineLevel :: "string \<Rightarrow> nat" where
  "lineLevel line =
     (case match False rxIndent line of Some m \<Rightarrow> length (cap m 1) | None \<Rightarrow> 0) div 4"

text \<open>The label: the text inside \<open>root((...))\<close> when the trimmed line has one, else the trimmed line.\<close>

definition lineLabel :: "string \<Rightarrow> string" where
  "lineLabel line =
     (case match False rxRoot (trim line) of
        Some rootMatch \<Rightarrow> cap rootMatch 1
      | None \<Rightarrow> trim line)"

text \<open>Step 1: the number of level-1 lines.\<close>

definition branchCount :: "string list \<Rightarrow> nat" where
  "branchCount lines = length (filter (\<lambda>line. \<not> skipLine line \<and> lineLevel line = 1) lines)"

text \<open>
  Step 2, the \<open>forEach\<close> that builds the nodes. The state is the two output arrays
  and the counters the callback closes over.
\<close>

record mindmapState =
  msNodes :: "MindmapNode list"
  msConnections :: "mindmapConnection list"
  nodeId :: nat
  levelStack :: "stackEntry list"
  currentBranchIndex :: nat
  childCountPerParent :: "string \<rightharpoonup> nat"

text \<open>\<open>while (stack.length > 0 && stack[stack.length - 1].level >= level) stack.pop()\<close>\<close>

definition popLevels :: "nat \<Rightarrow> stackEntry list \<Rightarrow> stackEntry list" where
  "popLevels level stack = rev (dropWhile (\<lambda>e. level \<le> seLevel e) (rev stack))"

text \<open>
  The division by \<open>branchCount\<close> is a division of reals: the branch is reached only
  for a level-1 line, which step 1 counted, so \<open>branchCount\<close> is positive there
  (lemma \<open>branchCount_pos\<close>).
\<close>

definition mindmapStep :: "nat \<Rightarrow> mindmapState \<Rightarrow> string \<Rightarrow> mindmapState" where
  "mindmapStep bc st line =
     (if skipLine line then st
      else
        let level = lineLevel line;
            label = lineLabel line
        in if label = [] then st
        else
          let ident = ''node-'' @ showNat (nodeId st) in
          if level = 0 then
            st\<lparr>msNodes := msNodes st @ [\<lparr>mmId = ident, mmLabel = label, mmLevel = level,
                                          mmX = 400, mmY = 300, parentId = None, isRoot = True\<rparr>],
               nodeId := nodeId st + 1,
               levelStack := [\<lparr>seId = ident, seLevel = 0, branchAngle = None\<rparr>]\<rparr>
          else
            let stack = popLevels level (levelStack st) in
            if stack = [] then
              st\<lparr>msNodes := msNodes st @ [\<lparr>mmId = ident, mmLabel = label, mmLevel = level,
                                            mmX = 400, mmY = 300, parentId = None, isRoot = False\<rparr>],
                 nodeId := nodeId st + 1,
                 levelStack := stack @ [\<lparr>seId = ident, seLevel = level, branchAngle = Some 0\<rparr>]\<rparr>
            else
              let parent = last stack in
              if level = 1 then
                let angle = (real (currentBranchIndex st) / real bc) * pi * 2 - pi / 2 in
                st\<lparr>msNodes := msNodes st @ [\<lparr>mmId = ident, mmLabel = label, mmLevel = level,
                                              mmX = 400 + 160 * cos angle, mmY = 300 + 160 * sin angle,
                                              parentId = Some (seId parent), isRoot = False\<rparr>],
                   msConnections := msConnections st @ [\<lparr>connFrom = seId parent, connTo = ident\<rparr>],
                   nodeId := nodeId st + 1,
                   levelStack := stack @ [\<lparr>seId = ident, seLevel = level, branchAngle = Some angle\<rparr>],
                   currentBranchIndex := currentBranchIndex st + 1\<rparr>
              else
                let parentBranchAngle = (case branchAngle parent of Some a \<Rightarrow> a | None \<Rightarrow> 0);
                    childIndex = (case childCountPerParent st (seId parent) of Some c \<Rightarrow> c | None \<Rightarrow> 0);
                    childAngle = parentBranchAngle + (real childIndex - 1) * (pi / 6);
                    radius = 160 + (real level - 1) * 120
                in
                st\<lparr>msNodes := msNodes st @ [\<lparr>mmId = ident, mmLabel = label, mmLevel = level,
                                              mmX = 400 + radius * cos childAngle,
                                              mmY = 300 + radius * sin childAngle,
                                              parentId = Some (seId parent), isRoot = False\<rparr>],
                   msConnections := msConnections st @ [\<lparr>connFrom = seId parent, connTo = ident\<rparr>],
                   nodeId := nodeId st + 1,
                   levelStack := stack @ [\<lparr>seId = ident, seLevel = level, branchAngle = Some childAngle\<rparr>],
                   childCountPerParent := (childCountPerParent st)(seId parent \<mapsto> childIndex + 1)\<rparr>)"

definition parseMindmap :: "string \<Rightarrow> mindmapData" where
  "parseMindmap diagram =
     (let lines = splitLines diagram;
          final = foldl (mindmapStep (branchCount lines))
                    \<lparr>msNodes = [], msConnections = [], nodeId = 0, levelStack = [],
                     currentBranchIndex = 0, childCountPerParent = Map.empty\<rparr> lines
      in \<lparr>mmNodes = msNodes final, connections = msConnections final\<rparr>)"

section \<open>Flowchart layout\<close>

datatype nodeShape = rect | diamond | circle | rounded

record NodeData =
  nodeIdent :: string
  nodeLabel :: string
  nodeX :: real
  nodeY :: real
  nodeWidth :: real
  nodeHeight :: real
  shape :: nodeShape

record point =
  ptX :: real
  ptY :: real

record EdgeData =
  edgeFrom :: string
  edgeTo :: string
  edgeLabel :: "string option"
  points :: "point list"

text \<open>An edge recovered from a line of the text, before its endpoints are looked up.\<close>

record lineEdge =
  leFrom :: string
  leTo :: string
  leLabel :: "string option"

record flowData =
  flowNodes :: "NodeData list"
  flowEdges :: "EdgeData list"

text \<open>
  The geometry map \<open>nodeMap\<close> is a JavaScript \<open>Map\<close> from the cleaned node id to the
  node: an association list in insertion order, with distinct keys. The source stores
  every node under its own id (\<open>nodeMap.set(cleanId, { id: cleanId, ... })\<close>).
\<close>

type_synonym nodeMap = "(string \<times> NodeData) list"

definition calculateEdgePoints :: "NodeData \<Rightarrow> NodeData \<Rightarrow> point list" where
  "calculateEdgePoints fromN toN =
     (let dx = nodeX toN - nodeX fromN; dy = nodeY toN - nodeY fromN in
      if \<bar>dy\<bar> > \<bar>dx\<bar> then
        (if dy > 0 then
           [\<lparr>ptX = nodeX fromN, ptY = nodeY fromN + nodeHeight fromN / 2\<rparr>,
            \<lparr>ptX = nodeX toN, ptY = nodeY toN - nodeHeight toN / 2\<rparr>]
         else
           [\<lparr>ptX = nodeX fromN + nodeWidth fromN / 2, ptY = nodeY fromN\<rparr>,
            \<lparr>ptX = nodeX fromN + nodeWidth fromN / 2 + 50, ptY = nodeY fromN - 30\<rparr>,
            \<lparr>ptX = nodeX toN + nodeWidth toN / 2 + 50, ptY = nodeY toN + nodeHeight toN / 2 + 30\<rparr>,
            \<lparr>ptX = nodeX toN + nodeWidth toN / 2, ptY = nodeY toN + nodeHeight toN / 2\<rparr>])
      else
        (if dx > 0 then
           [\<lparr>ptX = nodeX fromN + nodeWidth fromN / 2, ptY = nodeY fromN\<rparr>,
            \<lparr>ptX = nodeX toN - nodeWidth toN / 2, ptY = nodeY toN\<rparr>]
         else
           [\<lparr>ptX = nodeX fromN - nodeWidth fromN / 2, ptY = nodeY fromN\<rparr>,
            \<lparr>ptX = nodeX toN + nodeWidth toN / 2, ptY = nodeY toN\<rparr>]))"

text \<open>
  The \<open>forEach\<close> that turns the edges of a line into accepted edges: an edge is kept
  only when both of its endpoints are in the geometry map.
\<close>

definition acceptEdgeStep :: "nodeMap \<Rightarrow> EdgeData list \<Rightarrow> lineEdge \<Rightarrow> EdgeData list" where
  "acceptEdgeStep nm edges le =
     (case (mapGet nm (leFrom le), mapGet nm (leTo le)) of
        (Some fromNode, Some toNode) \<Rightarrow>
          edges @ [\<lparr>edgeFrom = leFrom le, edgeTo = leTo le, edgeLabel = leLabel le,
                    points = calculateEdgePoints fromNode toNode\<rparr>]
      | _ \<Rightarrow> edges)"

definition acceptEdges :: "nodeMap \<Rightarrow> lineEdge list \<Rightarrow> EdgeData list" where
  "acceptEdges nm les = foldl (acceptEdgeStep nm) [] les"

subsection \<open>Topological sort\<close>

text \<open>The in-degree and adjacency maps: every node first, then one update per edge.\<close>

definition flowInDegreeStep :: "(string \<times> nat) list \<Rightarrow> EdgeData \<Rightarrow> (string \<times> nat) list" where
  "flowInDegreeStep inDegree e =
     mapSet inDegree (edgeTo e) ((case mapGet inDegree (edgeTo e) of Some n \<Rightarrow> n | None \<Rightarrow> 0) + 1)"

definition flowAdjacencyStep ::
  "(string \<times> string list) list \<Rightarrow> EdgeData \<Rightarrow> (string \<times> string list) list" where
  "flowAdjacencyStep adjacency e =
     (case mapGet adjacency (edgeFrom e) of
        Some ns \<Rightarrow> mapSet adjacency (edgeFrom e) (ns @ [edgeTo e])
      | None \<Rightarrow> adjacency)"

definition flowInDegree :: "nodeMap \<Rightarrow> EdgeData list \<Rightarrow> (string \<times> nat) list" where
  "flowInDegree nm edges =
     foldl flowInDegreeStep (foldl (\<lambda>m kn. mapSet m (fst kn) 0) [] nm) edges"

definition flowAdjacency :: "nodeMap \<Rightarrow> EdgeData list \<Rightarrow> (string \<times> string list) list" where
  "flowAdjacency nm edges =
     foldl flowAdjacencyStep (foldl (\<lambda>m kn. mapSet m (fst kn) []) [] nm) edges"

text \<open>
  The comparator \<open>(a, b) => (nodeMap.get(a)?.y || 0) - (nodeMap.get(b)?.y || 0)\<close>:
  a stable ascending sort on the \<open>y\<close> of the node, \<open>0\<close> for an unknown id.
\<close>

definition yOf :: "nodeMap \<Rightarrow> string \<Rightarrow> real" where
  "yOf nm ident = (case mapGet nm ident of Some n \<Rightarrow> nodeY n | None \<Rightarrow> 0)"

definition sortByY :: "nodeMap \<Rightarrow> string list \<Rightarrow> string list" where
  "sortByY nm ids = sort_key (yOf nm) ids"

text \<open>
  One neighbour of the current node: its in-degree goes down by one, and it joins
  \<open>nextNodes\<close> when that reaches zero and it has not been visited.
\<close>

definition relaxStep ::
  "string list \<Rightarrow> (string \<times> nat) list \<times> string list \<Rightarrow> string \<Rightarrow> (string \<times> nat) list \<times> string list" where
  "relaxStep visited acc neighbor =
     (let newDegree = (case mapGet (fst acc) neighbor of
                         Some d \<Rightarrow> (if d = 0 then 1 else d)
                       | None \<Rightarrow> 1) - 1
      in (mapSet (fst acc) neighbor newDegree,
          if newDegree = 0 \<and> neighbor \<notin> set visited then snd acc @ [neighbor] else snd acc))"

definition neighborsOf :: "(string \<times> string list) list \<Rightarrow> string \<Rightarrow> string list" where
  "neighborsOf adjacency current = (case mapGet adjacency current of Some ns \<Rightarrow> ns | None \<Rightarrow> [])"

definition relax ::
  "(string \<times> string list) list \<Rightarrow> (string \<times> nat) list \<Rightarrow> string list \<Rightarrow> string
     \<Rightarrow> (string \<times> nat) list \<times> string list" where
  "relax adjacency inDegree visited current =
     foldl (relaxStep (visited @ [current])) (inDegree, []) (neighborsOf adjacency current)"

definition pushNode :: "nodeMap \<Rightarrow> NodeData list \<Rightarrow> string \<Rightarrow> NodeData list" where
  "pushNode nm result current =
     (case mapGet nm current of Some n \<Rightarrow> result @ [n] | None \<Rightarrow> result)"

lemma neighborsOf_unknown: "current \<notin> fst ` set adjacency \<Longrightarrow> neighborsOf adjacency current = []"
  by (simp add: neighborsOf_def mapGet_def map_of_eq_None_iff [THEN iffD2])

text \<open>
  The \<open>while (queue.length > 0)\<close> loop. The state is \<open>inDegree\<close>, \<open>visited\<close> (a \<open>Set\<close>,
  kept in insertion order), \<open>result\<close> and the queue; the loop returns the final
  \<open>visited\<close> and \<open>result\<close>.
\<close>

function kahnLoop ::
  "nodeMap \<Rightarrow> (string \<times> string list) list \<Rightarrow> (string \<times> nat) list \<Rightarrow> string list
     \<Rightarrow> NodeData list \<Rightarrow> string list \<Rightarrow> string list \<times> NodeData list" where
  "kahnLoop nm adjacency inDegree visited result [] = (visited, result)"
| "kahnLoop nm adjacency inDegree visited result (current # queue) =
     (if current \<in> set visited then kahnLoop nm adjacency inDegree visited result queue
      else kahnLoop nm adjacency
             (fst (relax adjacency inDegree visited current))
             (visited @ [current])
             (pushNode nm result current)
             (queue @ sortByY nm (snd (relax adjacency inDegree visited current))))"
  by pat_completeness auto
termination
proof (relation "measures [\<lambda>p. card (fst ` set (fst (snd p)) - set (fst (snd (snd (snd p))))),
                           \<lambda>p. length (snd (snd (snd (snd (snd p)))))]")
  show "wf (measures [\<lambda>p. card (fst ` set (fst (snd p)) - set (fst (snd (snd (snd p))))),
                      \<lambda>p. length (snd (snd (snd (snd (snd p)))))])"
    by simp
next
  fix nm :: nodeMap and adjacency :: "(string \<times> string list) list"
    and inDegree :: "(string \<times> nat) list" and visited :: "string list"
    and result :: "NodeData list" and current :: string and queue :: "string list"
  assume "current \<in> set visited"
  then show "((nm, adjacency, inDegree, visited, result, queue),
              (nm, adjacency, inDegree, visited, result, current # queue))
        \<in> measures [\<lambda>p. card (fst ` set (fst (snd p)) - set (fst (snd (snd (snd p))))),
                     \<lambda>p. length (snd (snd (snd (snd (snd p)))))]"
    by simp
next
  fix nm :: nodeMap and adjacency :: "(string \<times> string list) list"
    and inDegree :: "(string \<times> nat) list" and visited :: "string list"
    and result :: "NodeData list" and current :: string and queue :: "string list"
  assume unvisited: "current \<notin> set visited"
  show "((nm, adjacency, fst (relax adjacency inDegree visited current), visited @ [current],
          pushNode nm result current,
          queue @ sortByY nm (snd (relax adjacency inDegree visited current))),
         (nm, adjacency, inDegree, visited, result, current # queue))
        \<in> measures [\<lambda>p. card (fst ` set (fst (snd p)) - set (fst (snd (snd (snd p))))),
                     \<lambda>p. length (snd (snd (snd (snd (snd p)))))]"
  proof (cases "current \<in> fst ` set adjacency")
    case True
    have "fst ` set adjacency - set (visited @ [current]) \<subset> fst ` set adjacency - set visited"
      using True unvisited by auto
    then have "card (fst ` set adjacency - set (visited @ [current]))
        < card (fst ` set adjacency - set visited)"
      by (intro psubset_card_mono) auto
    then show ?thesis by simp
  next
    case False
    then have "relax adjacency inDegree visited current = (inDegree, [])"
      by (simp add: relax_def neighborsOf_unknown)
    moreover have "fst ` set adjacency - set (visited @ [current]) = fst ` set adjacency - set visited"
      using False by auto
    ultimately show ?thesis by (simp add: sortByY_def)
  qed
qed

text \<open>The initial queue: the ids of in-degree zero in map order, then sorted.\<close>

definition initialQueue :: "nodeMap \<Rightarrow> (string \<times> nat) list \<Rightarrow> string list" where
  "initialQueue nm inDegree = sortByY nm (map fst (filter (\<lambda>kd. snd kd = 0) inDegree))"

definition topologicalSort :: "nodeMap \<Rightarrow> EdgeData list \<Rightarrow> NodeData list" where
  "topologicalSort nm edges =
     (let inDegree = flowInDegree nm edges;
          adjacency = flowAdjacency nm edges;
          r = kahnLoop nm adjacency inDegree [] [] (initialQueue nm inDegree)
      in snd r @ map snd (filter (\<lambda>kn. fst kn \<notin> set (fst r)) nm))"

section \<open>Animation sequencer\<close>

subsection \<open>Opacity of a slot\<close>

text \<open>
  \<open>getOpacity\<close> closes over the current frame and the \<open>framesPerElement\<close> property;
  both are parameters here, and both are JavaScript numbers: the schema of the
  properties accepts every number for \<open>framesPerElement\<close>. The index is an integer: it
  is a loop index or the result of \<open>findIndex\<close>, which is \<open>-1\<close> when nothing is found.
\<close>

definition getOpacity :: "jsnum \<Rightarrow> jsnum \<Rightarrow> int \<Rightarrow> jsnum" where
  "getOpacity framesPerElement frame index =
     (let startFrame = jmul (Num (real_of_int index)) framesPerElement in
      if jless frame startFrame then Num 0
      else jmin (jdiv (jsub frame startFrame) (jmul framesPerElement (Num 0.5))) (Num 1))"

subsection \<open>Reveal order of a flowchart\<close>

datatype elemType = node | edge

record seqEntry =
  etype :: elemType
  index :: nat

text \<open>
  The loop \<open>for (let i = 0; i < maxLen; i++)\<close> over the node and edge counts; the
  accumulator is the \<open>sequence\<close> array, each \<open>push\<close> appends.
\<close>

definition flowSequenceStep :: "nat \<Rightarrow> nat \<Rightarrow> seqEntry list \<Rightarrow> nat \<Rightarrow> seqEntry list" where
  "flowSequenceStep n m sq i =
     (let sq1 = (if i < n then sq @ [\<lparr>etype = node, index = i\<rparr>] else sq) in
      if i < m then sq1 @ [\<lparr>etype = edge, index = i\<rparr>] else sq1)"

definition flowSequence :: "nat \<Rightarrow> nat \<Rightarrow> seqEntry list" where
  "flowSequence n m = foldl (flowSequenceStep n m) [] [0..<max n m]"

text \<open>The entries pushed by iteration \<open>i\<close> of the loop.\<close>

definition flowGroup :: "nat \<Rightarrow> nat \<Rightarrow> nat \<Rightarrow> seqEntry list" where
  "flowGroup n m i = (if i < n then [\<lparr>etype = node, index = i\<rparr>] else []) @
                     (if i < m then [\<lparr>etype = edge, index = i\<rparr>] else [])"

text \<open>\<open>Array.prototype.findIndex\<close>: the first position satisfying the predicate, or \<open>-1\<close>.\<close>

fun findIndexFrom :: "int \<Rightarrow> ('a \<Rightarrow> bool) \<Rightarrow> 'a list \<Rightarrow> int" where
  "findIndexFrom k P [] = -1"
| "findIndexFrom k P (x # xs) = (if P x then k else findIndexFrom (k + 1) P xs)"

definition findIndex :: "('a \<Rightarrow> bool) \<Rightarrow> 'a list \<Rightarrow> int" where
  "findIndex P xs = findIndexFrom 0 P xs"

text \<open>The slot handed to \<open>getOpacity\<close> for a node or an edge of the flowchart.\<close>

definition flowSlot :: "seqEntry list \<Rightarrow> elemType \<Rightarrow> nat \<Rightarrow> int" where
  "flowSlot sq t i = findIndex (\<lambda>s. etype s = t \<and> index s = i) sq"

subsection \<open>Slots and the visible count of each dialect\<close>

text \<open>The parsed structure the component holds, one variant per dialect.\<close>

datatype parsedDiagram =
    FlowchartD flowData
  | PieD pieData
  | SequenceD seqData
  | StateD stateData
  | MindmapD mindmapData

text \<open>The test \<open>frame >= i * framesPerElement\<close>: position \<open>i\<close> has started.\<close>

definition started :: "jsnum \<Rightarrow> jsnum \<Rightarrow> int \<Rightarrow> bool" where
  "started framesPerElement frame i = jge frame (jmul (Num (real_of_int i)) framesPerElement)"

text \<open>
  \<open>xs.filter((_, i) => frame >= i * framesPerElement).length\<close> for an array of
  length \<open>n\<close> (for three dialects the array is \<open>Array.from({ length: n }, (_, i) => i)\<close>).
\<close>

definition countVisible :: "jsnum \<Rightarrow> jsnum \<Rightarrow> nat \<Rightarrow> nat" where
  "countVisible framesPerElement frame n =
     length (filter (\<lambda>i. started framesPerElement frame (int i)) [0..<n])"

text \<open>The count shown as \<open>visibleCount / total elements\<close>, branch by branch.\<close>

fun visibleCount :: "jsnum \<Rightarrow> jsnum \<Rightarrow> parsedDiagram \<Rightarrow> nat" where
  "visibleCount fpe frame (FlowchartD fd) =
     countVisible fpe frame (length (flowSequence (length (flowNodes fd)) (length (flowEdges fd))))"
| "visibleCount fpe frame (PieD pd) = countVisible fpe frame (length (segments pd))"
| "visibleCount fpe frame (SequenceD sd) =
     countVisible fpe frame (length (actors sd) + length (messages sd))"
| "visibleCount fpe frame (StateD sd) =
     countVisible fpe frame (length (stateNodes sd) + length (stateTransitions sd))"
| "visibleCount fpe frame (MindmapD md) =
     countVisible fpe frame (length (mmNodes md) + length (connections md))"

definition getNodeIndex :: "MindmapNode list \<Rightarrow> string \<Rightarrow> int" where
  "getNodeIndex nodes ident = findIndex (\<lambda>n. mmId n = ident) nodes"

text \<open>
  The slot indices handed to \<open>getOpacity\<close>, in the order the renderer draws the
  elements: flowchart edges then nodes; the pie title then the segments; actors then
  messages; transitions then states; connections then mindmap nodes.
\<close>

fun opacitySlots :: "parsedDiagram \<Rightarrow> int list" where
  "opacitySlots (FlowchartD fd) =
     (let sq = flowSequence (length (flowNodes fd)) (length (flowEdges fd)) in
      map (flowSlot sq edge) [0..<length (flowEdges fd)]
      @ map (flowSlot sq node) [0..<length (flowNodes fd)])"
| "opacitySlots (PieD pd) = 0 # map (\<lambda>i. int i + 1) [0..<length (segments pd)]"
| "opacitySlots (SequenceD sd) =
     map int [0..<length (actors sd)]
     @ map (\<lambda>i. int (length (actors sd) + i)) [0..<length (messages sd)]"
| "opacitySlots (StateD sd) =
     map (\<lambda>i. int (length (stateNodes sd) + i)) [0..<length (stateTransitions sd)]
     @ map int [0..<length (stateNodes sd)]"
| "opacitySlots (MindmapD md) =
     map (\<lambda>c. max (getNodeIndex (mmNodes md) (connFrom c)) (getNodeIndex (mmNodes md) (connTo c)))
         (connections md)
     @ map int [0..<length (mmNodes md)]"

text \<open>
  The number of slots of the reveal order whose start frame
  \<open>slot * framesPerElement\<close> is at most the current frame.
\<close>

definition visibleSlots :: "jsnum \<Rightarrow> jsnum \<Rightarrow> parsedDiagram \<Rightarrow> nat" where
  "visibleSlots fpe frame p = length (remdups (filter (started fpe frame) (opacitySlots p)))"

section \<open>Properties of the number model\<close>

text \<open>Values of moderate size are inside the range of the doubles.\<close>

lemma overflowAt_big: "2 ^ 128 < overflowAt"
proof -
  have "(2::real) ^ 1024 = 2 ^ 970 * 2 ^ 54" by (simp add: power_add [symmetric])
  then have "overflowAt = 2 ^ 970 * (2 ^ 54 - 1)" by (simp add: overflowAt_def algebra_simps)
  moreover have "(2::real) ^ 970 * 1 \<le> 2 ^ 970 * (2 ^ 54 - 1)"
    by (rule mult_left_mono) simp_all
  moreover have "(2::real) ^ 128 < 2 ^ 970" by (rule power_strict_increasing) simp_all
  ultimately show ?thesis by simp
qed

lemma underflowAt_small: "underflowAt < 1 / 2 ^ 128" "0 < underflowAt"
proof -
  have "(2::real) ^ 128 < 2 ^ 1075" by (rule power_strict_increasing) simp_all
  then show "underflowAt < 1 / 2 ^ 128" unfolding underflowAt_def
    by (simp add: frac_less2)
  show "0 < underflowAt" by (simp add: underflowAt_def)
qed

lemma fromSum_mid: "\<bar>x\<bar> \<le> 2 ^ 128 \<Longrightarrow> fromSum x = Num x"
proof -
  assume "\<bar>x\<bar> \<le> 2 ^ 128"
  with overflowAt_big have "\<not> overflowAt \<le> x" "\<not> x \<le> - overflowAt" by linarith+
  then show ?thesis by (simp add: fromSum_def)
qed

lemma fromReal_zero: "fromReal 0 = Num 0"
  using underflowAt_small(2) by (simp add: fromReal_def)

lemma fromReal_mid: "1 / 2 ^ 128 \<le> \<bar>x\<bar> \<Longrightarrow> \<bar>x\<bar> \<le> 2 ^ 128 \<Longrightarrow> fromReal x = Num x"
proof -
  assume a: "1 / 2 ^ 128 \<le> \<bar>x\<bar>" and b: "\<bar>x\<bar> \<le> 2 ^ 128"
  from a underflowAt_small(1) have "\<not> \<bar>x\<bar> \<le> underflowAt" by linarith
  then show ?thesis using fromSum_mid [OF b] by (simp add: fromReal_def)
qed

lemma fromReal_nonneg: "x = 0 \<or> 1 / 2 ^ 128 \<le> x \<Longrightarrow> x \<le> 2 ^ 128 \<Longrightarrow> fromReal x = Num x"
  using fromReal_zero fromReal_mid [of x] by auto

text \<open>Half of the smallest positive double is rounded to zero.\<close>

lemma fromReal_half_least: "fromReal (1 / 2 ^ 1074 * 0.5) = Num 0"
proof -
  have "(1 / 2 ^ 1074 * 0.5 :: real) = 1 / 2 ^ 1075" by simp
  then show ?thesis by (simp add: fromReal_def underflowAt_def)
qed

text \<open>A natural number up to \<open>2^53\<close> is a double.\<close>

lemma roundNat_exact: "n \<le> 2 ^ 53 \<Longrightarrow> roundNat n = Fin n"
  by (simp add: roundNat_def)

lemma roundNat_overflow: "2 ^ 1024 \<le> n \<Longrightarrow> roundNat n = Infinite"
proof -
  assume a: "2 ^ 1024 \<le> n"
  have "(2::nat) ^ 53 < 2 ^ 1024" by (rule power_strict_increasing) simp_all
  with a have "\<not> n \<le> 2 ^ 53" by linarith
  with a show ?thesis by (simp add: roundNat_def)
qed

text \<open>Rounding above \<open>2^53\<close>: to the nearest double, a tie to the even one.\<close>

lemma roundNat_examples:
  "roundNat (2 ^ 53 + 1) = Fin (2 ^ 53)"
  "roundNat (2 ^ 53 + 2) = Fin (2 ^ 53 + 2)"
  "roundNat (2 ^ 53 + 3) = Fin (2 ^ 53 + 4)"
  "roundNat (2 ^ 54 + 1) = Fin (2 ^ 54)"
  "roundNat (2 ^ 54 + 3) = Fin (2 ^ 54 + 4)"
  "roundNat (2 ^ 54 + 6) = Fin (2 ^ 54 + 8)"
  "roundNat (2 ^ 1024 - 2 ^ 970 - 1) = Fin (2 ^ 1024 - 2 ^ 971)"
  "roundNat (2 ^ 1024 - 2 ^ 970) = Infinite"
  by (simp_all add: roundNat_def bitlen.simps Let_def)

section \<open>Properties of the matcher\<close>

text \<open>
  A match only moves forward: the rest of a result state is a suffix of the rest it
  started from, shorter by the number of characters consumed.
\<close>

definition advances :: "mstate \<Rightarrow> mstate \<Rightarrow> bool" where
  "advances st st' =
     (mpos st \<le> mpos st' \<and> mpos st' - mpos st \<le> length (mrest st)
      \<and> mrest st' = drop (mpos st' - mpos st) (mrest st))"

lemma advances_refl: "advances st st"
  by (simp add: advances_def)

lemma advances_trans: "advances a b \<Longrightarrow> advances b c \<Longrightarrow> advances a c"
  by (auto simp: advances_def)

lemma starIter_rel:
  assumes step: "\<And>s s'. s' \<in> set (f s) \<Longrightarrow> R s s'"
    and refl: "\<And>s. R s s"
    and trans: "\<And>a b c. R a b \<Longrightarrow> R b c \<Longrightarrow> R a c"
  shows "st' \<in> set (starIter f n st) \<Longrightarrow> R st st'"
proof (induction n arbitrary: st)
  case 0
  then show ?case using refl by simp
next
  case (Suc n)
  from Suc.prems consider "st' = st"
    | s where "s \<in> set (f st)" "st' \<in> set (starIter f n s)"
    by (auto split: if_splits)
  then show ?case
  proof cases
    case 1
    then show ?thesis using refl by simp
  next
    case 2
    then show ?thesis using step Suc.IH trans by blast
  qed
qed

lemma ms_advances: "st' \<in> set (ms ci r st) \<Longrightarrow> advances st st'"
proof (induction r arbitrary: st st')
  case Eps
  then show ?case by (simp add: advances_refl)
next
  case (Atom a)
  then show ?case by (cases "mrest st") (auto simp: advances_def split: if_splits)
next
  case (Seq r1 r2)
  then show ?case using advances_trans by fastforce
next
  case (Star r)
  have "st' \<in> set (starIter (\<lambda>s. ms ci r s) (length (mrest st)) st)" using Star.prems by simp
  then show ?case
    by (rule starIter_rel [rotated 3]) (auto intro: Star.IH advances_refl advances_trans)
next
  case (Plus r)
  from Plus.prems obtain s where s: "s \<in> set (ms ci r st)"
    "st' \<in> set (starIter (\<lambda>s'. ms ci r s') (length (mrest s)) s)" by auto
  have "advances s st'" using s(2)
    by (rule starIter_rel [rotated 3]) (auto intro: Plus.IH advances_refl advances_trans)
  then show ?case using Plus.IH [OF s(1)] advances_trans by blast
next
  case (Opt r)
  then show ?case by (auto simp: advances_refl)
next
  case (Group k r)
  then show ?case by (fastforce simp: advances_def)
next
  case Bol
  then show ?case by (auto simp: advances_refl split: if_splits)
next
  case Eol
  then show ?case by (auto simp: advances_refl split: if_splits)
qed

text \<open>The numbers of the groups of a pattern.\<close>

fun groupsOf :: "regex \<Rightarrow> nat set" where
  "groupsOf Eps = {}"
| "groupsOf (Atom a) = {}"
| "groupsOf (Seq r1 r2) = groupsOf r1 \<union> groupsOf r2"
| "groupsOf (Star r) = groupsOf r"
| "groupsOf (Plus r) = groupsOf r"
| "groupsOf (Opt r) = groupsOf r"
| "groupsOf (Group k r) = insert k (groupsOf r)"
| "groupsOf Bol = {}"
| "groupsOf Eol = {}"

lemma ms_keeps_group:
  "st' \<in> set (ms ci r st) \<Longrightarrow> k \<notin> groupsOf r \<Longrightarrow> map_of (mcaps st') k = map_of (mcaps st) k"
proof (induction r arbitrary: st st')
  case Eps
  then show ?case by simp
next
  case (Atom a)
  then show ?case by (cases "mrest st") (auto split: if_splits)
next
  case (Seq r1 r2)
  then show ?case by fastforce
next
  case (Star r)
  have "st' \<in> set (starIter (\<lambda>s. ms ci r s) (length (mrest st)) st)" using Star.prems by simp
  then show ?case
    by (rule starIter_rel [rotated 3]) (use Star in auto)
next
  case (Plus r)
  from Plus.prems obtain s where s: "s \<in> set (ms ci r st)"
    "st' \<in> set (starIter (\<lambda>s'. ms ci r s') (length (mrest s)) s)" by auto
  have "map_of (mcaps st') k = map_of (mcaps s) k" using s(2)
    by (rule starIter_rel [rotated 3]) (use Plus in auto)
  then show ?case using Plus.IH [OF s(1)] Plus.prems by simp
next
  case (Opt r)
  then show ?case by auto
next
  case (Group j r)
  then show ?case by fastforce
next
  case Bol
  then show ?case by (auto split: if_splits)
next
  case Eol
  then show ?case by (auto split: if_splits)
qed

text \<open>
  \<open>setsGroup ci k P r\<close>: in every match of \<open>r\<close>, group \<open>k\<close> took part and its text
  satisfies \<open>P\<close>.
\<close>

definition setsGroup :: "bool \<Rightarrow> nat \<Rightarrow> (string \<Rightarrow> bool) \<Rightarrow> regex \<Rightarrow> bool" where
  "setsGroup ci k P r =
     (\<forall>st st'. st' \<in> set (ms ci r st) \<longrightarrow> (\<exists>s. map_of (mcaps st') k = Some s \<and> P s))"

lemma setsGroup_Group: "k \<notin> groupsOf r \<Longrightarrow> setsGroup ci k (\<lambda>s. True) (Group k r)"
  by (auto simp: setsGroup_def)

lemma ms_Plus_iff:
  "st' \<in> set (ms ci (Plus r) st) \<longleftrightarrow> (\<exists>s \<in> set (ms ci r st). st' \<in> set (ms ci (Star r) s))"
  by auto

lemma ms_Group_iff:
  "st' \<in> set (ms ci (Group k r) st) \<longleftrightarrow>
   (\<exists>s \<in> set (ms ci r st).
      st' = MState (mpos s) (mrest s) ((k, take (mpos s - mpos st) (mrest st)) # mcaps s))"
  by auto

lemma ms_Atom_pos: "s \<in> set (ms ci (Atom a) st) \<Longrightarrow> mpos s = Suc (mpos st)"
  by (cases "mrest st") (auto split: if_splits)

lemma Plus_Atom_consumes:
  assumes "st' \<in> set (ms ci (Plus (Atom a)) st)"
  shows "mpos st < mpos st' \<and> mpos st' - mpos st \<le> length (mrest st)"
proof -
  from assms obtain s where s: "s \<in> set (ms ci (Atom a) st)"
    "st' \<in> set (ms ci (Star (Atom a)) s)" unfolding ms_Plus_iff by blast
  have "advances s st'" using s(2) by (rule ms_advances)
  moreover have "mpos s = Suc (mpos st)" using s(1) by (rule ms_Atom_pos)
  moreover have "advances st st'" using assms by (rule ms_advances)
  ultimately show ?thesis by (auto simp: advances_def)
qed

lemma setsGroup_Group_Plus: "setsGroup ci k (\<lambda>s. s \<noteq> []) (Group k (Plus (Atom a)))"
proof (unfold setsGroup_def, intro allI impI)
  fix st st' assume "st' \<in> set (ms ci (Group k (Plus (Atom a))) st)"
  then obtain s where s: "s \<in> set (ms ci (Plus (Atom a)) st)"
    "st' = MState (mpos s) (mrest s) ((k, take (mpos s - mpos st) (mrest st)) # mcaps s)"
    unfolding ms_Group_iff by blast
  from Plus_Atom_consumes [OF s(1)]
  have "take (mpos s - mpos st) (mrest st) \<noteq> []" by auto
  then show "\<exists>t. map_of (mcaps st') k = Some t \<and> t \<noteq> []" using s(2) by simp
qed

lemma setsGroup_Seq1: "setsGroup ci k P r1 \<Longrightarrow> k \<notin> groupsOf r2 \<Longrightarrow> setsGroup ci k P (Seq r1 r2)"
  unfolding setsGroup_def using ms_keeps_group by fastforce

lemma setsGroup_Seq2: "setsGroup ci k P r2 \<Longrightarrow> setsGroup ci k P (Seq r1 r2)"
  unfolding setsGroup_def by fastforce

lemma setsGroup_weaken: "setsGroup ci k P r \<Longrightarrow> (\<And>s. P s \<Longrightarrow> Q s) \<Longrightarrow> setsGroup ci k Q r"
  unfolding setsGroup_def by blast

lemma execFrom_setsGroup:
  "setsGroup ci k P r \<Longrightarrow> execFrom ci r pos s = Some m \<Longrightarrow> \<exists>t. grp m k = Some t \<and> P t"
proof (induction s arbitrary: pos)
  case Nil
  then show ?case
    by (cases "ms ci r (MState pos [] [])")
       (simp_all add: grp_def setsGroup_def, metis list.set_intros(1) matchResult.select_convs(3))
next
  case (Cons c cs)
  show ?case
  proof (cases "ms ci r (MState pos (c # cs) [])")
    case Nil
    then show ?thesis using Cons by simp
  next
    case (Cons st sts)
    then have "st \<in> set (ms ci r (MState pos (c # cs) []))" by simp
    then obtain t where "map_of (mcaps st) k = Some t \<and> P t"
      using Cons.prems(1) unfolding setsGroup_def by blast
    then show ?thesis using Cons Cons.prems(2) by (auto simp: grp_def)
  qed
qed

text \<open>
  A group that takes part in every match of its pattern is defined in every match
  result, so \<open>cap\<close> returns the text of the group, never its default.
\<close>

lemma match_sets_group:
  "setsGroup ci k P r \<Longrightarrow> match ci r s = Some m \<Longrightarrow> grp m k = Some (cap m k) \<and> P (cap m k)"
  using execFrom_setsGroup [of ci k P r 0 s m] by (auto simp: match_def cap_def)

lemma seqs_Cons: "rs \<noteq> [] \<Longrightarrow> seqs (r # rs) = Seq r (seqs rs)"
  by (cases rs) simp_all

lemma groupsOf_lit: "groupsOf (lit s) = {}"
proof (induction s)
  case Nil
  then show ?case by (simp add: lit_def)
next
  case (Cons c cs)
  then show ?case by (cases cs) (simp_all add: lit_def)
qed

subsection \<open>Runs of digits\<close>

text \<open>The greedy iteration of \<open>\d\<close> over a run of digits first takes the whole run.\<close>

lemma starIter_digits:
  "list_all isDigit ds \<Longrightarrow> length ds \<le> n \<Longrightarrow>
   \<exists>rest. starIter (ms ci (Atom Digit)) n (MState p ds caps) = MState (p + length ds) [] caps # rest"
proof (induction ds arbitrary: n p)
  case Nil
  then show ?case by (cases n) simp_all
next
  case (Cons c cs)
  from Cons.prems(2) obtain n' where n: "n = Suc n'" and le: "length cs \<le> n'"
    by (cases n) simp_all
  from Cons.prems(1) have c: "isDigit c" and cs: "list_all isDigit cs" by simp_all
  from Cons.IH [OF cs le, of "Suc p"] obtain rest where
    r: "starIter (ms ci (Atom Digit)) n' (MState (Suc p) cs caps) = MState (Suc p + length cs) [] caps # rest"
    by blast
  have f: "ms ci (Atom Digit) (MState p (c # cs) caps) = [MState (Suc p) cs caps]"
    using c by simp
  have "starIter (ms ci (Atom Digit)) n (MState p (c # cs) caps)
      = starIter (ms ci (Atom Digit)) n' (MState (Suc p) cs caps) @ [MState p (c # cs) caps]"
    unfolding n starIter.simps f by simp
  then show ?case by (simp add: r del: ms.simps)
qed

text \<open>The number written by \<open>1\<close> followed by \<open>n\<close> zeros.\<close>

lemma digitsValue_snoc: "digitsValue (ds @ [c]) = 10 * digitsValue ds + (charCode c - 48)"
  by (simp add: digitsValue_def)

lemma charCode_digits: "charCode (CHR ''0'') = 48" "charCode (CHR ''1'') = 49"
  by code_simp+

lemma digitsValue_power: "digitsValue (''1'' @ replicate n (CHR ''0'')) = 10 ^ n"
proof (induction n)
  case 0
  show ?case by (simp add: digitsValue_def charCode_digits)
next
  case (Suc n)
  have "''1'' @ replicate (Suc n) (CHR ''0'') = (''1'' @ replicate n (CHR ''0'')) @ [CHR ''0'']"
    by (simp add: replicate_append_same)
  then show ?case using Suc by (simp only: digitsValue_snoc charCode_digits) simp
qed

lemma splitLines_single: "CHR 0x0A \<notin> set s \<Longrightarrow> splitLines s = [s]"
  by (induction s) auto

section \<open>Properties of the pie chart parser\<close>

text \<open>The groups read by the parser take part in every match.\<close>

lemma rxPieTitle_group: "setsGroup ci 1 (\<lambda>s. s \<noteq> []) rxPieTitle"
  by (simp add: rxPieTitle_def seqs_Cons setsGroup_Seq1 setsGroup_Seq2 setsGroup_Group_Plus)

lemma rxPieEntry_groups:
  "setsGroup ci 1 (\<lambda>s. s \<noteq> []) rxPieEntry" "setsGroup ci 2 (\<lambda>s. s \<noteq> []) rxPieEntry"
  by (simp_all add: rxPieEntry_def groupsOf_lit setsGroup_Seq1 setsGroup_Seq2 setsGroup_Group_Plus)

subsection \<open>Values inside the exact range of the doubles\<close>

text \<open>The labels and the numbers written by the entry lines, in text order.\<close>

definition lineEntries :: "string list \<Rightarrow> (string \<times> nat) list" where
  "lineEntries ls =
     concat (map (\<lambda>l. case match False rxPieEntry l of
                         Some m \<Rightarrow> [(cap m 1, digitsValue (cap m 2))] | None \<Rightarrow> []) ls)"

definition pieEntries :: "string \<Rightarrow> (string \<times> nat) list" where
  "pieEntries diagram = lineEntries (splitLines diagram)"

definition pieValues :: "string \<Rightarrow> nat list" where
  "pieValues diagram = map snd (pieEntries diagram)"

definition exactSegment :: "string \<times> nat \<Rightarrow> rawSegment" where
  "exactSegment e = \<lparr>rawLabel = fst e, rawValue = Fin (snd e)\<rparr>"

fun natOf :: "natDouble \<Rightarrow> nat" where
  "natOf (Fin n) = n"
| "natOf Infinite = 0"

lemma lineEntries_None: "match False rxPieEntry l = None \<Longrightarrow> lineEntries (l # ls) = lineEntries ls"
  by (simp add: lineEntries_def)

lemma lineEntries_Some:
  "match False rxPieEntry l = Some m \<Longrightarrow>
   lineEntries (l # ls) = (cap m 1, digitsValue (cap m 2)) # lineEntries ls"
  by (simp add: lineEntries_def)

text \<open>While the running total stays up to \<open>2^53\<close>, every value and every sum is exact.\<close>

lemma foldl_pieRawStep_exact:
  "t + sum_list (map snd (lineEntries ls)) \<le> 2 ^ 53 \<Longrightarrow>
   foldl pieRawStep (rs, Fin t) ls =
     (rs @ map exactSegment (lineEntries ls), Fin (t + sum_list (map snd (lineEntries ls))))"
proof (induction ls arbitrary: rs t)
  case Nil
  show ?case by (simp add: lineEntries_def)
next
  case (Cons l ls)
  show ?case
  proof (cases "match False rxPieEntry l")
    case None
    then have step: "pieRawStep (rs, Fin t) l = (rs, Fin t)" by (simp add: pieRawStep_def)
    have lv: "lineEntries (l # ls) = lineEntries ls" using None by (rule lineEntries_None)
    from Cons.prems have "t + sum_list (map snd (lineEntries ls)) \<le> 2 ^ 53" by (simp only: lv)
    from Cons.IH [OF this, of rs] show ?thesis by (simp only: lv foldl_Cons step)
  next
    case (Some m)
    define n where "n = digitsValue (cap m 2)"
    have lv: "lineEntries (l # ls) = (cap m 1, n) # lineEntries ls"
      unfolding n_def using Some by (rule lineEntries_Some)
    from Cons.prems have tot: "t + n + sum_list (map snd (lineEntries ls)) \<le> 2 ^ 53"
      by (simp add: lv)
    then have b: "n \<le> 2 ^ 53" "t + n \<le> 2 ^ 53" by linarith+
    have step: "pieRawStep (rs, Fin t) l = (rs @ [exactSegment (cap m 1, n)], Fin (t + n))"
      using Some by (simp add: pieRawStep_def parseFloat_def n_def [symmetric] exactSegment_def
          roundNat_exact [OF b(1)] roundNat_exact [OF b(2)] Let_def)
    from Cons.IH [OF tot, of "rs @ [exactSegment (cap m 1, n)]"]
    show ?thesis by (simp add: lv step)
  qed
qed

lemma pieRaw_exact:
  assumes "sum_list (pieValues d) \<le> 2 ^ 53"
  shows "pieRaw d = (map exactSegment (pieEntries d), Fin (sum_list (pieValues d)))"
  using foldl_pieRawStep_exact [of 0 "splitLines d" "[]"] assms
  by (simp add: pieRaw_def pieValues_def pieEntries_def)

text \<open>The segments the layout loop appends, written as a recursion over the raw list.\<close>

fun layoutFrom :: "real \<Rightarrow> real \<Rightarrow> nat \<Rightarrow> rawSegment list \<Rightarrow> PieSegment list" where
  "layoutFrom V a k [] = []"
| "layoutFrom V a k (r # rs) =
     \<lparr>segLabel = rawLabel r, segValue = rawValue r, segColor = colors ! (k mod length colors),
      startAngle = Num a, endAngle = Num (a + real (natOf (rawValue r)) / V * pi * 2)\<rparr>
     # layoutFrom V (a + real (natOf (rawValue r)) / V * pi * 2) (Suc k) rs"

fun angleStarts :: "real \<Rightarrow> real \<Rightarrow> real list \<Rightarrow> real list" where
  "angleStarts V a [] = []"
| "angleStarts V a (v # vs) = a # angleStarts V (a + v / V * pi * 2) vs"

lemma pieLayoutStep_finite:
  assumes "rawValue r = Fin v" "0 < V" "V \<le> 2 ^ 53" "- 8 \<le> a"
    and "a + real v / real V * pi * 2 \<le> 8"
  shows "pieLayoutStep (Fin V) (acc, Num a) (k, r) =
     (acc @ [\<lparr>segLabel = rawLabel r, segValue = rawValue r, segColor = colors ! (k mod length colors),
              startAngle = Num a, endAngle = Num (a + real v / real V * pi * 2)\<rparr>],
      Num (a + real v / real V * pi * 2))"
proof -
  define q where "q = real v / real V"
  have V: "real V \<noteq> 0" "0 < real V" "real V \<le> 2 ^ 53" using assms(2,3) by simp_all
  have q0: "0 \<le> q" by (simp add: q_def)
  have p1: "1 \<le> pi" using pi_ge_two by linarith
  have ang: "q * pi * 2 \<le> 16" using assms(4,5) by (simp add: q_def)
  have qp: "q \<le> q * pi" using q0 p1 by (simp add: mult_le_cancel_left1)
  have qp2: "q * pi \<le> q * pi * 2" using q0 p1 by simp
  have low: "q = 0 \<or> 1 / 2 ^ 128 \<le> q"
  proof (cases "v = 0")
    case True
    then show ?thesis by (simp add: q_def)
  next
    case False
    then have "1 \<le> real v" by simp
    then have "1 / real V \<le> q" unfolding q_def using V(2) by (simp add: divide_right_mono)
    moreover have "1 / 2 ^ 53 \<le> 1 / real V" using V(2,3) by (simp add: frac_le)
    moreover have "(1::real) / 2 ^ 128 \<le> 1 / 2 ^ 53" by simp
    ultimately show ?thesis by linarith
  qed
  have low1: "q * pi = 0 \<or> 1 / 2 ^ 128 \<le> q * pi"
  proof (cases "q = 0")
    case True
    then show ?thesis by simp
  next
    case False
    with low have "1 / 2 ^ 128 \<le> q" by simp
    with qp have "1 / 2 ^ 128 \<le> q * pi" by linarith
    then show ?thesis by (rule disjI2)
  qed
  have low2: "q * pi * 2 = 0 \<or> 1 / 2 ^ 128 \<le> q * pi * 2"
  proof (cases "q = 0")
    case True
    then show ?thesis by simp
  next
    case False
    with low have "1 / 2 ^ 128 \<le> q" by simp
    with qp qp2 have "1 / 2 ^ 128 \<le> q * pi * 2" by linarith
    then show ?thesis by (rule disjI2)
  qed
  have big: "(16::real) \<le> 2 ^ 128" by simp
  have b0: "q \<le> 2 ^ 128" using qp qp2 ang big by linarith
  have b1: "q * pi \<le> 2 ^ 128" using qp2 ang big by linarith
  have b2: "q * pi * 2 \<le> 2 ^ 128" using ang big by linarith
  have d: "jdiv (Num (real v)) (Num (real V)) = Num q"
    using V(1) fromReal_nonneg [OF low b0] by (simp add: q_def)
  have m1: "jmul (Num q) (Num pi) = Num (q * pi)"
    using fromReal_nonneg [OF low1 b1] by simp
  have m2: "jmul (Num (q * pi)) (Num 2) = Num (q * pi * 2)"
    using fromReal_nonneg [OF low2 b2] by simp
  have "0 \<le> q * pi * 2" using q0 p1 by simp
  moreover have "a + q * pi * 2 \<le> 8" using assms(5) by (simp add: q_def)
  ultimately have "\<bar>a + q * pi * 2\<bar> \<le> 2 ^ 128" using assms(4) big by linarith
  then have s: "jadd (Num a) (Num (q * pi * 2)) = Num (a + q * pi * 2)"
    by (simp add: fromSum_mid)
  show ?thesis
    by (simp add: pieLayoutStep_def Let_def assms(1) d m1 m2 s
        del: jdiv.simps jmul.simps jadd.simps) (simp add: q_def)
qed

lemma foldl_pieLayoutStep:
  assumes "0 < V" "V \<le> 2 ^ 53"
  shows "map rawValue rs = map Fin vs \<Longrightarrow> - 8 \<le> a \<Longrightarrow>
         a + real (sum_list vs) / real V * pi * 2 \<le> 8 \<Longrightarrow>
         fst (foldl (pieLayoutStep (Fin V)) (acc, Num a) (enumerate k rs))
           = acc @ layoutFrom (real V) a k rs"
proof (induction rs arbitrary: acc a k vs)
  case Nil
  show ?case by simp
next
  case (Cons r rs)
  from Cons.prems(1) obtain v ws where vs: "vs = v # ws" and r: "rawValue r = Fin v"
    and rest: "map rawValue rs = map Fin ws" by (cases vs) auto
  define g where "g = real v / real V * pi * 2"
  define h where "h = real (sum_list ws) / real V * pi * 2"
  have nn: "0 \<le> g" "0 \<le> h" using assms(1) by (simp_all add: g_def h_def)
  have "real (sum_list vs) / real V * pi * 2 = g + h"
    by (simp add: vs g_def h_def add_divide_distrib distrib_right)
  with Cons.prems(3) have tot: "a + g + h \<le> 8" by simp
  then have here: "a + real v / real V * pi * 2 \<le> 8" using nn by (simp add: g_def)
  have lo: "- 8 \<le> a + g" using Cons.prems(2) nn by simp
  have nx: "a + g + real (sum_list ws) / real V * pi * 2 \<le> 8" using tot by (simp add: h_def)
  note step = pieLayoutStep_finite [OF r assms Cons.prems(2) here, of acc k]
  have "fst (foldl (pieLayoutStep (Fin V)) (acc, Num a) (enumerate k (r # rs)))
      = fst (foldl (pieLayoutStep (Fin V))
               (acc @ [\<lparr>segLabel = rawLabel r, segValue = rawValue r,
                         segColor = colors ! (k mod length colors),
                         startAngle = Num a, endAngle = Num (a + g)\<rparr>], Num (a + g))
               (enumerate (Suc k) rs))"
    by (simp add: step g_def)
  also have "\<dots> = (acc @ [\<lparr>segLabel = rawLabel r, segValue = rawValue r,
                         segColor = colors ! (k mod length colors),
                         startAngle = Num a, endAngle = Num (a + g)\<rparr>])
                   @ layoutFrom (real V) (a + g) (Suc k) rs"
    by (rule Cons.IH [OF rest lo nx])
  finally show ?case by (simp add: r g_def)
qed

lemma pieLayout_finite:
  assumes "0 < V" "V \<le> 2 ^ 53" "map rawValue rs = map Fin vs" "sum_list vs = V"
  shows "pieLayout rs (Fin V) = layoutFrom (real V) (- pi / 2) 0 rs"
proof -
  have a: "- 8 \<le> - pi / 2" using pi_less_4 by simp
  have "real (sum_list vs) / real V * pi * 2 = pi * 2" using assms(1,4) by simp
  then have b: "- pi / 2 + real (sum_list vs) / real V * pi * 2 \<le> 8" using pi_less_4 by simp
  from foldl_pieLayoutStep [OF assms(1,2,3) a b, of "[]" 0]
  show ?thesis by (simp add: pieLayout_def)
qed

lemma layoutFrom_length: "length (layoutFrom V a k rs) = length rs"
  by (induction rs arbitrary: a k) simp_all

lemma layoutFrom_labels: "map segLabel (layoutFrom V a k rs) = map rawLabel rs"
  by (induction rs arbitrary: a k) simp_all

lemma layoutFrom_values: "map segValue (layoutFrom V a k rs) = map rawValue rs"
  by (induction rs arbitrary: a k) simp_all

lemma layoutFrom_starts:
  "map startAngle (layoutFrom V a k rs)
     = map Num (angleStarts V a (map (\<lambda>r. real (natOf (rawValue r))) rs))"
  by (induction rs arbitrary: a k) simp_all

lemma layoutFrom_ends:
  "map endAngle (layoutFrom V a k rs) =
   map Num (map2 (\<lambda>s v. s + v / V * pi * 2)
              (angleStarts V a (map (\<lambda>r. real (natOf (rawValue r))) rs))
              (map (\<lambda>r. real (natOf (rawValue r))) rs))"
  by (induction rs arbitrary: a k) simp_all

lemma angleStarts_length: "length (angleStarts V a vs) = length vs"
  by (induction vs arbitrary: a) simp_all

lemma angleStarts_Suc:
  "Suc i < length vs \<Longrightarrow> angleStarts V a vs ! Suc i = angleStarts V a vs ! i + vs ! i / V * pi * 2"
proof (induction vs arbitrary: a i)
  case Nil
  then show ?case by simp
next
  case (Cons v vs)
  show ?case
  proof (cases i)
    case 0
    then show ?thesis using Cons.prems by (cases vs) simp_all
  next
    case (Suc j)
    then show ?thesis using Cons by simp
  qed
qed

lemma angleStarts_first: "vs \<noteq> [] \<Longrightarrow> angleStarts V a vs ! 0 = a"
  by (cases vs) simp_all

lemma span_sum:
  assumes "V \<noteq> 0"
  shows "(\<Sum>i<length vs. vs ! i / V * pi * 2) = sum_list vs / V * pi * 2"
proof -
  have "(\<Sum>i<length vs. vs ! i / V * pi * 2) = (\<Sum>i<length vs. vs ! i) / V * pi * 2"
    by (simp add: sum_divide_distrib sum_distrib_right)
  also have "(\<Sum>i<length vs. vs ! i) = sum_list vs"
    by (simp add: sum_list_sum_nth atLeast0LessThan)
  finally show ?thesis .
qed

text \<open>
  When the numbers written by the entry lines sum to \<open>V\<close> with \<open>0 < V \<le> 2^53\<close>, every
  value and the total are exact, and the layout is the one of the reals: the segments
  are the entries in declaration order; all angles are finite; the span of segment
  \<open>i\<close> is \<open>value / V * 2 * pi\<close>; the first segment starts at \<open>- pi / 2\<close>; each later
  segment starts where the one before ends; the spans sum to \<open>2 * pi\<close>.
\<close>

lemma pie_segments_partition:
  assumes "0 < sum_list (pieValues d)" "sum_list (pieValues d) \<le> 2 ^ 53"
  shows "\<exists>ss es.
           length ss = length (pieValues d) \<and> length es = length (pieValues d)
         \<and> snd (pieRaw d) = Fin (sum_list (pieValues d))
         \<and> length (segments (parsePieChart d)) = length (pieValues d)
         \<and> map segLabel (segments (parsePieChart d)) = map fst (pieEntries d)
         \<and> map segValue (segments (parsePieChart d)) = map Fin (pieValues d)
         \<and> map startAngle (segments (parsePieChart d)) = map Num ss
         \<and> map endAngle (segments (parsePieChart d)) = map Num es
         \<and> (\<forall>i<length ss. es ! i - ss ! i
                = real (pieValues d ! i) / real (sum_list (pieValues d)) * (2 * pi))
         \<and> ss ! 0 = - pi / 2
         \<and> (\<forall>i. Suc i < length ss \<longrightarrow> ss ! Suc i = es ! i)
         \<and> (\<Sum>i<length ss. es ! i - ss ! i) = 2 * pi"
proof -
  define rs where "rs = fst (pieRaw d)"
  define N where "N = sum_list (pieValues d)"
  define V where "V = real N"
  define vs where "vs = map real (pieValues d)"
  define ss where "ss = angleStarts V (- pi / 2) vs"
  define es where "es = map2 (\<lambda>s v. s + v / V * pi * 2) ss vs"
  have N: "0 < N" "N \<le> 2 ^ 53" using assms by (simp_all add: N_def)
  have V: "V \<noteq> 0" "0 < V" using N(1) by (simp_all add: V_def)
  have raw: "map rawValue rs = map Fin (pieValues d)" "snd (pieRaw d) = Fin N"
    "map rawLabel rs = map fst (pieEntries d)"
    using pieRaw_exact [OF assms(2)]
    by (simp_all add: rs_def N_def pieValues_def exactSegment_def)
  have "map (\<lambda>r. real (natOf (rawValue r))) rs = map (\<lambda>x. real (natOf x)) (map rawValue rs)"
    by simp
  also have "\<dots> = vs" unfolding raw(1) by (simp add: vs_def)
  finally have vals: "map (\<lambda>r. real (natOf (rawValue r))) rs = vs" .
  have lrs: "length rs = length (pieValues d)"
    using raw(1) length_map [of rawValue rs] by simp
  have "real (sum_list xs) = sum_list (map real xs)" for xs :: "nat list"
    by (induction xs) simp_all
  then have Vsum: "V = sum_list vs" by (simp add: V_def N_def vs_def)
  have nonempty: "vs \<noteq> []" using V Vsum by auto
  have segs: "segments (parsePieChart d) = layoutFrom V (- pi / 2) 0 rs"
    using pieLayout_finite [OF N raw(1)] by (simp add: parsePieChart_def rs_def raw(2) N_def V_def)
  have lvs: "length vs = length (pieValues d)" by (simp add: vs_def)
  have lss: "length ss = length (pieValues d)" by (simp add: ss_def angleStarts_length lvs)
  have les: "length es = length (pieValues d)" by (simp add: es_def lss lvs)
  have span: "es ! i - ss ! i = real (pieValues d ! i) / V * (2 * pi)" if "i < length ss" for i
    using that lss lvs by (simp add: es_def vs_def)
  have contig: "ss ! Suc i = es ! i" if "Suc i < length ss" for i
  proof -
    have "Suc i < length vs" using that lss lvs by simp
    then have "ss ! Suc i = ss ! i + vs ! i / V * pi * 2"
      unfolding ss_def by (rule angleStarts_Suc)
    moreover have "es ! i = ss ! i + vs ! i / V * pi * 2"
      using that lss lvs by (simp add: es_def)
    ultimately show ?thesis by simp
  qed
  have total: "(\<Sum>i<length ss. es ! i - ss ! i) = 2 * pi"
  proof -
    have "(\<Sum>i<length ss. es ! i - ss ! i) = (\<Sum>i<length vs. vs ! i / V * pi * 2)"
      using lss lvs by (simp add: es_def)
    also have "\<dots> = sum_list vs / V * pi * 2" using V(1) by (rule span_sum)
    also have "\<dots> = 2 * pi" using V Vsum by simp
    finally show ?thesis .
  qed
  have first: "ss ! 0 = - pi / 2" unfolding ss_def using nonempty by (rule angleStarts_first)
  have "length ss = length (pieValues d) \<and> length es = length (pieValues d)
         \<and> snd (pieRaw d) = Fin N
         \<and> length (segments (parsePieChart d)) = length (pieValues d)
         \<and> map segLabel (segments (parsePieChart d)) = map fst (pieEntries d)
         \<and> map segValue (segments (parsePieChart d)) = map Fin (pieValues d)
         \<and> map startAngle (segments (parsePieChart d)) = map Num ss
         \<and> map endAngle (segments (parsePieChart d)) = map Num es
         \<and> (\<forall>i<length ss. es ! i - ss ! i = real (pieValues d ! i) / V * (2 * pi))
         \<and> ss ! 0 = - pi / 2
         \<and> (\<forall>i. Suc i < length ss \<longrightarrow> ss ! Suc i = es ! i)
         \<and> (\<Sum>i<length ss. es ! i - ss ! i) = 2 * pi"
    using lss les span contig total first raw
    by (simp add: segs layoutFrom_length layoutFrom_labels layoutFrom_values layoutFrom_starts
        layoutFrom_ends vals lrs ss_def es_def)
  then show ?thesis unfolding rs_def V_def N_def by blast
qed

lemma pieEntries_example:
  "pieEntries ''pie title Test\<newline>  \"A\" : 60\<newline>  \"B\" : 40'' = [(''A'', 60), (''B'', 40)]"
  by code_simp

lemma pieValues_example:
  "pieValues ''pie title Test\<newline>  \"A\" : 60\<newline>  \"B\" : 40'' = [60, 40]"
  by (simp add: pieValues_def pieEntries_example)

lemma pieRaw_example:
  "pieRaw ''pie title Test\<newline>  \"A\" : 60\<newline>  \"B\" : 40'' = ([\<lparr>rawLabel = ''A'', rawValue = Fin 60\<rparr>, \<lparr>rawLabel = ''B'', rawValue = Fin 40\<rparr>], Fin 100)"
proof -
  have "sum_list (pieValues ''pie title Test\<newline>  \"A\" : 60\<newline>  \"B\" : 40'') \<le> 2 ^ 53"
    by (simp add: pieValues_example)
  from pieRaw_exact [OF this] show ?thesis
    by (simp add: pieValues_example pieEntries_example exactSegment_def)
qed

text \<open>The pie chart with the entries 60 and 40: spans of 0.6 and 0.4 of the circle.\<close>

lemma pie_segments_partition_example:
  "\<exists>ss es. length ss = 2 \<and> length es = 2
         \<and> map segLabel (segments (parsePieChart ''pie title Test\<newline>  \"A\" : 60\<newline>  \"B\" : 40'')) = [''A'', ''B'']
         \<and> map startAngle (segments (parsePieChart ''pie title Test\<newline>  \"A\" : 60\<newline>  \"B\" : 40'')) = map Num ss
         \<and> map endAngle (segments (parsePieChart ''pie title Test\<newline>  \"A\" : 60\<newline>  \"B\" : 40'')) = map Num es
         \<and> es ! 0 - ss ! 0 = 60 / 100 * (2 * pi)
         \<and> es ! 1 - ss ! 1 = 40 / 100 * (2 * pi)
         \<and> ss ! 0 = - pi / 2 \<and> ss ! 1 = es ! 0"
proof -
  let ?d = "''pie title Test\<newline>  \"A\" : 60\<newline>  \"B\" : 40''"
  have pos: "0 < sum_list (pieValues ?d)" "sum_list (pieValues ?d) \<le> 2 ^ 53"
    by (simp_all add: pieValues_example)
  from pie_segments_partition [OF pos] obtain ss es where
    h: "length ss = length (pieValues ?d)" "length es = length (pieValues ?d)"
       "map segLabel (segments (parsePieChart ?d)) = map fst (pieEntries ?d)"
       "map startAngle (segments (parsePieChart ?d)) = map Num ss"
       "map endAngle (segments (parsePieChart ?d)) = map Num es"
       "\<forall>i<length ss. es ! i - ss ! i
           = real (pieValues ?d ! i) / real (sum_list (pieValues ?d)) * (2 * pi)"
       "ss ! 0 = - pi / 2"
       "\<forall>i. Suc i < length ss \<longrightarrow> ss ! Suc i = es ! i"
    by blast
  have l: "length ss = 2" "length es = 2" using h(1,2) by (simp_all add: pieValues_example)
  have s0: "es ! 0 - ss ! 0 = 60 / 100 * (2 * pi)"
    using h(6) [rule_format, of 0] l by (simp add: pieValues_example)
  have s1: "es ! 1 - ss ! 1 = 40 / 100 * (2 * pi)"
    using h(6) [rule_format, of 1] l by (simp add: pieValues_example)
  have c: "ss ! 1 = es ! 0" using h(8) [rule_format, of 0] l by simp
  have lab: "map segLabel (segments (parsePieChart ?d)) = [''A'', ''B'']"
    using h(3) by (simp add: pieEntries_example)
  show ?thesis
    apply (rule exI [of _ ss])
    apply (rule exI [of _ es])
    using l s0 s1 c lab h(4,5,7) apply simp
    done
qed

subsection \<open>Totals outside the range\<close>

lemma pieEntries_zero: "pieEntries ''pie\<newline>\"A\" : 0'' = [(''A'', 0)]"
  by code_simp

lemma pieRaw_zero: "pieRaw ''pie\<newline>\"A\" : 0'' = ([\<lparr>rawLabel = ''A'', rawValue = Fin 0\<rparr>], Fin 0)"
proof -
  have "sum_list (pieValues ''pie\<newline>\"A\" : 0'') \<le> 2 ^ 53"
    by (simp add: pieValues_def pieEntries_zero)
  from pieRaw_exact [OF this] show ?thesis
    by (simp add: pieValues_def pieEntries_zero exactSegment_def)
qed

text \<open>
  C1. A pie text whose only entry has value \<open>0\<close>: the total is \<open>0\<close>, yet one segment is
  emitted, and its end angle is NaN.
\<close>

theorem pie_zero_total_NaN:
  "snd (pieRaw ''pie\<newline>\"A\" : 0'') = Fin 0
   \<and> segments (parsePieChart ''pie\<newline>\"A\" : 0'') =
       [\<lparr>segLabel = ''A'', segValue = Fin 0, segColor = ''#4e79a7'',
         startAngle = Num (- pi / 2), endAngle = NaN\<rparr>]
   \<and> isNaN (endAngle (hd (segments (parsePieChart ''pie\<newline>\"A\" : 0''))))"
  by (simp add: parsePieChart_def pieRaw_zero pieLayout_def pieLayoutStep_def colors_def Let_def
      isNaN_def)

lemma pie_no_entries:
  "fst (pieRaw d) = [] \<Longrightarrow> segments (parsePieChart d) = []"
  by (simp add: parsePieChart_def pieLayout_def)

text \<open>A pie text whose only entry has the value \<open>10^309\<close>, written with 310 digits.\<close>

definition pieHuge :: string where
  "pieHuge = ''pie\<newline>\"A\" : 1'' @ replicate 309 (CHR ''0'')"

lemma parseFloat_huge: "parseFloat (''1'' @ replicate 309 (CHR ''0'')) = Infinite"
proof -
  have "(2::nat) ^ 1024 \<le> 10 ^ 309" by simp
  then show ?thesis unfolding parseFloat_def digitsValue_power by (rule roundNat_overflow)
qed

lemma huge_lines: "splitLines pieHuge = [''pie'', ''\"A\" : 1'' @ replicate 309 (CHR ''0'')]"
proof -
  have "splitLines (''\"A\" : 1'' @ replicate 309 (CHR ''0'')) = [''\"A\" : 1'' @ replicate 309 (CHR ''0'')]"
    by (rule splitLines_single) simp
  then show ?thesis by (simp add: pieHuge_def)
qed

lemma char_facts:
  "isSpace (CHR '' '')" "\<not> isSpace (CHR '':'')" "\<not> isSpace (CHR ''1'')"
  "isDigit (CHR ''1'')" "isDigit (CHR ''0'')" "\<not> isDigit (CHR '' '')"
  by code_simp+

lemma entry_match:
  assumes "list_all isDigit zs"
  shows "\<exists>m. match False rxPieEntry (''\"A\" : 1'' @ zs) = Some m \<and> cap m 1 = ''A'' \<and> cap m 2 = ''1'' @ zs"
proof -
  from starIter_digits [OF assms order_refl, of False "Suc (Suc (Suc (Suc (Suc (Suc (Suc 0))))))"
      "[(Suc 0, ''A'')]"] obtain rest where
    r: "starIter (ms False (Atom Digit)) (length zs)
          (MState (Suc (Suc (Suc (Suc (Suc (Suc (Suc 0))))))) zs [(Suc 0, ''A'')])
        = MState (Suc (Suc (Suc (Suc (Suc (Suc (Suc 0)))))) + length zs) [] [(Suc 0, ''A'')] # rest"
    by blast
  show ?thesis
    by (simp add: match_def rxPieEntry_def lit_def char_facts r cap_def grp_def)
qed

lemma pieRaw_huge: "pieRaw pieHuge = ([\<lparr>rawLabel = ''A'', rawValue = Infinite\<rparr>], Infinite)"
proof -
  have "list_all isDigit (replicate 309 (CHR ''0''))" by (simp add: list_all_iff char_facts)
  from entry_match [OF this] obtain m where
    m: "match False rxPieEntry (''\"A\" : 1'' @ replicate 309 (CHR ''0'')) = Some m"
       "cap m 1 = ''A''" "cap m 2 = ''1'' @ replicate 309 (CHR ''0'')" by blast
  have n: "match False rxPieEntry ''pie'' = None" by code_simp
  have a: "pieRawStep ([], Fin 0) ''pie'' = ([], Fin 0)" by (simp add: pieRawStep_def n)
  have b: "pieRawStep ([], Fin 0) (''\"A\" : 1'' @ replicate 309 (CHR ''0''))
        = ([\<lparr>rawLabel = ''A'', rawValue = Infinite\<rparr>], Infinite)"
    by (simp only: pieRawStep_def m option.case Let_def parseFloat_huge) simp
  show ?thesis by (simp only: pieRaw_def huge_lines foldl_Cons foldl_Nil a b)
qed

text \<open>
  C3. For the pie text whose only entry has the value \<open>10^309\<close>, the value and the
  total are \<open>Infinity\<close>, so the total is greater than \<open>0\<close>; one segment is emitted, it
  starts at \<open>- pi / 2\<close> and its end angle is NaN (\<open>Infinity / Infinity\<close>), so its span
  is not \<open>2 * pi\<close>.
\<close>

theorem pie_overflow_NaN:
  "snd (pieRaw pieHuge) = Infinite
   \<and> jless (Num 0) (toNum (snd (pieRaw pieHuge)))
   \<and> segments (parsePieChart pieHuge) =
       [\<lparr>segLabel = ''A'', segValue = Infinite, segColor = ''#4e79a7'',
         startAngle = Num (- pi / 2), endAngle = NaN\<rparr>]
   \<and> isNaN (endAngle (hd (segments (parsePieChart pieHuge))))
   \<and> jsub (endAngle (hd (segments (parsePieChart pieHuge))))
           (startAngle (hd (segments (parsePieChart pieHuge)))) \<noteq> Num (2 * pi)"
  by (simp add: parsePieChart_def pieRaw_huge pieLayout_def pieLayoutStep_def colors_def Let_def
      isNaN_def jsub_def)

subsection \<open>The title\<close>

text \<open>No single line of the text matches the title pattern.\<close>

definition noTitleLine :: "string \<Rightarrow> bool" where
  "noTitleLine diagram = list_all (\<lambda>l. match True rxPieTitle l = None) (splitLines diagram)"

lemma title_parsePieChart: "title (parsePieChart d) = pieTitle d"
  by (simp add: parsePieChart_def)

text \<open>
  C10, as the code has it. When the title pattern has no match anywhere in the
  diagram text, the title is the non-empty default \<open>Pie Chart\<close>, and the title
  holds slot \<open>0\<close> of the reveal order. The pattern is matched against the whole
  text and its white space may span line breaks.
\<close>

theorem pie_default_title:
  assumes "match True rxPieTitle d = None"
  shows "title (parsePieChart d) = ''Pie Chart'' \<and> title (parsePieChart d) \<noteq> []
       \<and> hd (opacitySlots (PieD (parsePieChart d))) = 0"
  using assms by (simp add: title_parsePieChart pieTitle_def)

theorem pie_default_title_witness:
  "match True rxPieTitle ''pie\<newline>\"A\" : 60'' = None
   \<and> title (parsePieChart ''pie\<newline>\"A\" : 60'') = ''Pie Chart''"
proof -
  have m: "match True rxPieTitle ''pie\<newline>\"A\" : 60'' = None" by code_simp
  from pie_default_title [OF m] m show ?thesis by simp
qed

text \<open>
  C10, as stated, fails: in the text with the line \<open>pie\<close> followed by the line
  \<open>title Pets\<close>, no line matches the title pattern, yet the title is \<open>Pets\<close>.
\<close>

theorem pie_title_across_lines:
  "noTitleLine ''pie\<newline>  title Pets''
   \<and> title (parsePieChart ''pie\<newline>  title Pets'') = ''Pets''
   \<and> title (parsePieChart ''pie\<newline>  title Pets'') \<noteq> ''Pie Chart''"
proof -
  have a: "noTitleLine ''pie\<newline>  title Pets''" by code_simp
  have b: "pieTitle ''pie\<newline>  title Pets'' = ''Pets''" by code_simp
  show ?thesis using a b by (simp add: title_parsePieChart)
qed

section \<open>Properties of the sequence diagram parser\<close>

text \<open>The groups read by the parser take part in every match.\<close>

lemma rxParticipant_group: "setsGroup ci 1 (\<lambda>s. s \<noteq> []) rxParticipant"
  by (simp add: rxParticipant_def groupsOf_lit setsGroup_Seq1 setsGroup_Seq2 setsGroup_Group_Plus)

lemma rxMessage_groups:
  "setsGroup ci 1 (\<lambda>s. s \<noteq> []) rxMessage" "setsGroup ci 2 (\<lambda>s. True) rxMessage"
  "setsGroup ci 3 (\<lambda>s. s \<noteq> []) rxMessage" "setsGroup ci 4 (\<lambda>s. s \<noteq> []) rxMessage"
  by (simp_all add: rxMessage_def groupsOf_lit setsGroup_Seq1 setsGroup_Seq2 setsGroup_Group_Plus
      setsGroup_Group)

text \<open>
  What the message pattern extracts from a line (source id, arrow, destination id,
  trimmed text), and the ids the participant pattern declares, in text order.
\<close>

definition messageLine :: "string \<Rightarrow> (string \<times> string \<times> string \<times> string) option" where
  "messageLine line =
     (case match False rxMessage line of
        Some m \<Rightarrow> Some (cap m 1, cap m 2, cap m 3, trim (cap m 4))
      | None \<Rightarrow> None)"

definition messageLines :: "string \<Rightarrow> (string \<times> string \<times> string \<times> string) list" where
  "messageLines diagram = List.map_filter messageLine (splitLines diagram)"

definition participantIds :: "string \<Rightarrow> string list" where
  "participantIds diagram =
     List.map_filter (\<lambda>l. map_option (\<lambda>m. cap m 1) (match True rxParticipant l))
       (splitLines diagram)"

definition bothDeclared :: "string list \<Rightarrow> string \<times> string \<times> string \<times> string \<Rightarrow> bool" where
  "bothDeclared ids ml = (fst ml \<in> set ids \<and> fst (snd (snd ml)) \<in> set ids)"

fun acceptedMessages ::
  "(string \<rightharpoonup> nat) \<Rightarrow> real \<Rightarrow> (string \<times> string \<times> string \<times> string) list \<Rightarrow> SequenceMessage list" where
  "acceptedMessages am y [] = []"
| "acceptedMessages am y ((f, a, t, x) # r) =
     (case (am f, am t) of
        (Some fi, Some ti) \<Rightarrow>
          \<lparr>msgFrom = fi, msgTo = ti, msgText = x, msgY = y,
           msgType = (if strIncludes a ''--'' then dashed else solid)\<rparr>
          # acceptedMessages am (y + 60) r
      | _ \<Rightarrow> acceptedMessages am y r)"

lemma messageStep_cases:
  "messageStep am (ms0, y0) l =
     (case messageLine l of
        None \<Rightarrow> (ms0, y0)
      | Some ml \<Rightarrow> (ms0 @ acceptedMessages am y0 [ml],
                    y0 + 60 * real (length (acceptedMessages am y0 [ml]))))"
  by (cases "messageLine l")
     (auto simp: messageStep_def messageLine_def Let_def split: option.splits)

lemma acceptedMessages_append:
  "acceptedMessages am y (xs @ ys) =
     acceptedMessages am y xs
     @ acceptedMessages am (y + 60 * real (length (acceptedMessages am y xs))) ys"
proof (induction xs arbitrary: y)
  case Nil
  then show ?case by simp
next
  case (Cons p xs)
  obtain f a t x where p: "p = (f, a, t, x)" by (cases p) auto
  show ?case unfolding p using Cons [of y] Cons [of "y + 60"]
    by (auto split: option.splits simp: algebra_simps)
qed

lemma foldl_messageStep:
  "foldl (messageStep am) (ms0, y0) ls =
     (ms0 @ acceptedMessages am y0 (List.map_filter messageLine ls),
      y0 + 60 * real (length (acceptedMessages am y0 (List.map_filter messageLine ls))))"
proof (induction ls arbitrary: ms0 y0)
  case Nil
  then show ?case by (simp add: map_filter_simps)
next
  case (Cons l ls)
  let ?R = "List.map_filter messageLine ls"
  show ?case
  proof (cases "messageLine l")
    case None
    have step: "messageStep am (ms0, y0) l = (ms0, y0)"
      using None by (simp add: messageStep_cases)
    have mf: "List.map_filter messageLine (l # ls) = ?R"
      using None by (simp add: map_filter_simps)
    show ?thesis by (simp only: foldl_Cons step mf Cons.IH)
  next
    case (Some ml)
    let ?A = "acceptedMessages am y0 [ml]"
    let ?y = "y0 + 60 * real (length ?A)"
    have step: "messageStep am (ms0, y0) l = (ms0 @ ?A, ?y)"
      using Some by (simp add: messageStep_cases)
    have mf: "List.map_filter messageLine (l # ls) = ml # ?R"
      using Some by (simp add: map_filter_simps)
    have app: "acceptedMessages am y0 (ml # ?R) = ?A @ acceptedMessages am ?y ?R"
      using acceptedMessages_append [of am y0 "[ml]" ?R] by simp
    have "foldl (messageStep am) (ms0, y0) (l # ls) = foldl (messageStep am) (ms0 @ ?A, ?y) ls"
      by (simp only: foldl_Cons step)
    also have "\<dots> = ((ms0 @ ?A) @ acceptedMessages am ?y ?R,
                      ?y + 60 * real (length (acceptedMessages am ?y ?R)))"
      by (rule Cons.IH)
    also have "\<dots> = (ms0 @ acceptedMessages am y0 (ml # ?R),
                      y0 + 60 * real (length (acceptedMessages am y0 (ml # ?R))))"
      unfolding app by (simp add: ring_distribs)
    finally show ?thesis unfolding mf .
  qed
qed

lemma messages_accepted:
  "messages (parseSequence d) = acceptedMessages (asMap (seqActors d)) 100 (messageLines d)"
  by (simp add: parseSequence_def Let_def seqMessages_def foldl_messageStep messageLines_def)

lemma acceptedMessages_filter:
  "dom am = set ids \<Longrightarrow>
   map (\<lambda>m. (msgFrom m, msgTo m, msgText m, msgType m)) (acceptedMessages am y ls) =
   map (\<lambda>ml. (the (am (fst ml)), the (am (fst (snd (snd ml)))), snd (snd (snd ml)),
              (if strIncludes (fst (snd ml)) ''--'' then dashed else solid)))
       (filter (bothDeclared ids) ls)"
proof (induction ls arbitrary: y)
  case Nil
  then show ?case by simp
next
  case (Cons p ls)
  obtain f a t x where p: "p = (f, a, t, x)" by (cases p) auto
  have mem: "(f \<in> set ids) = (am f \<noteq> None)" "(t \<in> set ids) = (am t \<noteq> None)"
    using Cons.prems by (auto simp: dom_def)
  show ?case unfolding p using Cons.IH [OF Cons.prems] mem
    by (auto simp: bothDeclared_def split: option.splits)
qed

lemma acceptedMessages_y:
  "i < length (acceptedMessages am y ls) \<Longrightarrow> msgY (acceptedMessages am y ls ! i) = y + 60 * real i"
proof (induction ls arbitrary: y i)
  case Nil
  then show ?case by simp
next
  case (Cons p ls)
  obtain f a t x where p: "p = (f, a, t, x)" by (cases p) auto
  show ?case
  proof (cases "am f \<noteq> None \<and> am t \<noteq> None")
    case True
    then obtain fi ti where s: "am f = Some fi" "am t = Some ti" by auto
    show ?thesis
    proof (cases i)
      case 0
      then show ?thesis by (simp add: p s)
    next
      case (Suc j)
      then have "j < length (acceptedMessages am (y + 60) ls)" using Cons.prems by (simp add: p s)
      from Cons.IH [OF this] show ?thesis by (simp add: p s Suc algebra_simps)
    qed
  next
    case False
    then have e: "acceptedMessages am y (p # ls) = acceptedMessages am y ls"
      by (auto simp: p split: option.splits)
    show ?thesis using Cons unfolding e by simp
  qed
qed

lemma actorStep_dom:
  "dom (asMap (actorStep st l)) =
   dom (asMap st) \<union> (case match True rxParticipant l of None \<Rightarrow> {} | Some m \<Rightarrow> {cap m 1})"
  by (simp add: actorStep_def Let_def split: option.splits)

lemma foldl_actorStep_dom:
  "dom (asMap (foldl actorStep st ls)) =
   dom (asMap st) \<union> set (List.map_filter (\<lambda>l. map_option (\<lambda>m. cap m 1) (match True rxParticipant l)) ls)"
proof (induction ls arbitrary: st)
  case Nil
  then show ?case by (simp add: map_filter_simps)
next
  case (Cons l ls)
  have "dom (asMap (foldl actorStep st (l # ls))) = dom (asMap (foldl actorStep (actorStep st l) ls))"
    by simp
  also have "\<dots> = dom (asMap (actorStep st l)) \<union>
      set (List.map_filter (\<lambda>l. map_option (\<lambda>m. cap m 1) (match True rxParticipant l)) ls)"
    by (rule Cons.IH)
  finally show ?case
    by (cases "match True rxParticipant l") (simp_all add: actorStep_dom map_filter_simps)
qed

lemma dom_actorMap: "dom (asMap (seqActors d)) = set (participantIds d)"
  by (simp add: seqActors_def participantIds_def foldl_actorStep_dom)

lemma actorStep_range:
  assumes "\<And>k v. asMap st k = Some v \<Longrightarrow> v < length (asActors st)"
    and "asMap (actorStep st l) k = Some v"
  shows "v < length (asActors (actorStep st l))"
proof (cases "match True rxParticipant l")
  case None
  then show ?thesis using assms by (simp add: actorStep_def)
next
  case (Some m)
  then have a: "asMap (actorStep st l) = (asMap st)(cap m 1 \<mapsto> length (asActors st))"
    and b: "length (asActors (actorStep st l)) = Suc (length (asActors st))"
    by (simp_all add: actorStep_def Let_def)
  show ?thesis
  proof (cases "k = cap m 1")
    case True
    then show ?thesis using assms(2) a b by simp
  next
    case False
    then have "asMap st k = Some v" using assms(2) a by simp
    from assms(1) [OF this] show ?thesis using b by simp
  qed
qed

lemma foldl_actorStep_range:
  "(\<And>k v. asMap st k = Some v \<Longrightarrow> v < length (asActors st)) \<Longrightarrow>
   asMap (foldl actorStep st ls) k = Some v \<Longrightarrow> v < length (asActors (foldl actorStep st ls))"
proof (induction ls arbitrary: st)
  case Nil
  then show ?case by simp
next
  case (Cons l ls)
  have "\<And>k v. asMap (actorStep st l) k = Some v \<Longrightarrow> v < length (asActors (actorStep st l))"
    using Cons.prems(1) by (rule actorStep_range)
  from Cons.IH [OF this] Cons.prems(2) show ?case by simp
qed

lemma actorMap_range:
  "asMap (seqActors d) k = Some v \<Longrightarrow> v < length (actors (parseSequence d))"
  using foldl_actorStep_range [of "\<lparr>asActors = [], asMap = Map.empty, asX = 120\<rparr>" "splitLines d" k v]
  by (simp add: seqActors_def parseSequence_def Let_def)

text \<open>
  C8. The emitted messages are, in text order, exactly the message lines whose source
  and destination ids are both declared participants (the other message lines are
  dropped); each message carries the lane indices of its two ids, which are valid
  indices into the actor list; message \<open>i\<close> has \<open>y = 100 + 60 * i\<close>, so the \<open>y\<close>
  positions are strictly increasing with the fixed step \<open>60\<close>.
\<close>

theorem sequence_messages_declared:
  "map (\<lambda>m. (msgFrom m, msgTo m, msgText m, msgType m)) (messages (parseSequence d)) =
   map (\<lambda>ml. (the (asMap (seqActors d) (fst ml)), the (asMap (seqActors d) (fst (snd (snd ml)))),
              snd (snd (snd ml)), (if strIncludes (fst (snd ml)) ''--'' then dashed else solid)))
       (filter (bothDeclared (participantIds d)) (messageLines d))
   \<and> (\<forall>m \<in> set (messages (parseSequence d)).
         msgFrom m < length (actors (parseSequence d)) \<and> msgTo m < length (actors (parseSequence d)))
   \<and> (\<forall>i<length (messages (parseSequence d)).
         msgY (messages (parseSequence d) ! i) = 100 + 60 * real i)
   \<and> (\<forall>i j. i < j \<and> j < length (messages (parseSequence d)) \<longrightarrow>
         msgY (messages (parseSequence d) ! i) < msgY (messages (parseSequence d) ! j))"
proof (intro conjI ballI allI impI)
  let ?am = "asMap (seqActors d)"
  let ?M = "messages (parseSequence d)"
  show eq: "map (\<lambda>m. (msgFrom m, msgTo m, msgText m, msgType m)) ?M =
   map (\<lambda>ml. (the (?am (fst ml)), the (?am (fst (snd (snd ml)))),
              snd (snd (snd ml)), (if strIncludes (fst (snd ml)) ''--'' then dashed else solid)))
       (filter (bothDeclared (participantIds d)) (messageLines d))"
    unfolding messages_accepted by (rule acceptedMessages_filter [OF dom_actorMap])
  show y: "msgY (?M ! i) = 100 + 60 * real i" if "i < length ?M" for i
    using that unfolding messages_accepted by (rule acceptedMessages_y)
  show "msgY (?M ! i) < msgY (?M ! j)" if "i < j \<and> j < length ?M" for i j
    using that y [of i] y [of j] by simp
  fix m assume m: "m \<in> set ?M"
  then have "(msgFrom m, msgTo m, msgText m, msgType m) \<in>
      set (map (\<lambda>m. (msgFrom m, msgTo m, msgText m, msgType m)) ?M)" by force
  then obtain ml where ml: "ml \<in> set (filter (bothDeclared (participantIds d)) (messageLines d))"
     "msgFrom m = the (?am (fst ml))" "msgTo m = the (?am (fst (snd (snd ml))))"
    unfolding eq by auto
  then have "fst ml \<in> dom ?am" "fst (snd (snd ml)) \<in> dom ?am"
    by (simp_all add: bothDeclared_def dom_actorMap)
  then obtain a b where ab: "?am (fst ml) = Some a" "?am (fst (snd (snd ml))) = Some b" by auto
  show "msgFrom m < length (actors (parseSequence d))"
    using actorMap_range [OF ab(1)] ml(2) ab(1) by simp
  show "msgTo m < length (actors (parseSequence d))"
    using actorMap_range [OF ab(2)] ml(3) ab(2) by simp
qed


definition seqExample :: string where
  "seqExample = ''sequenceDiagram\<newline>    participant U as User\<newline>    participant F\<newline>    U->>F: Hi\<newline>    F-->>U: Yo\<newline>    U->>X: dropped''"

lemma seqExample_ids: "participantIds seqExample = [''U'', ''F'']"
  by code_simp

lemma seqExample_lines:
  "messageLines seqExample =
     [(''U'', ''->>'', ''F'', ''Hi''), (''F'', ''-->>'', ''U'', ''Yo''), (''U'', ''->>'', ''X'', ''dropped'')]"
  by code_simp

lemma seqExample_map:
  "asMap (seqActors seqExample) ''U'' = Some 0" "asMap (seqActors seqExample) ''F'' = Some 1"
  "asMap (seqActors seqExample) ''X'' = None"
  by code_simp+

theorem sequence_messages_declared_witness:
  "map (\<lambda>m. (msgFrom m, msgTo m, msgText m, msgType m)) (messages (parseSequence seqExample))
     = [(0, 1, ''Hi'', solid), (1, 0, ''Yo'', dashed)]
   \<and> msgY (messages (parseSequence seqExample) ! 0) = 100
   \<and> msgY (messages (parseSequence seqExample) ! 1) = 160"
proof -
  note t = sequence_messages_declared [of seqExample]
  have m: "map (\<lambda>m. (msgFrom m, msgTo m, msgText m, msgType m)) (messages (parseSequence seqExample))
     = [(0, 1, ''Hi'', solid), (1, 0, ''Yo'', dashed)]"
    using t by (simp add: seqExample_ids seqExample_lines seqExample_map bothDeclared_def)
  then have "length (map (\<lambda>m. (msgFrom m, msgTo m, msgText m, msgType m))
      (messages (parseSequence seqExample))) = 2" by simp
  then have l: "length (messages (parseSequence seqExample)) = 2" by simp
  have y: "\<forall>i<length (messages (parseSequence seqExample)).
         msgY (messages (parseSequence seqExample) ! i) = 100 + 60 * real i"
    using t by (elim conjE)
  have y0: "msgY (messages (parseSequence seqExample) ! 0) = 100"
    using y [rule_format, of 0] l by simp
  have y1: "msgY (messages (parseSequence seqExample) ! 1) = 160"
    using y [rule_format, of 1] l by simp
  show ?thesis using m y0 y1 by simp
qed

section \<open>Properties of the state diagram parser\<close>

text \<open>The groups read by the parser take part in every match.\<close>

lemma rxStateStart_group: "setsGroup ci 1 (\<lambda>s. s \<noteq> []) rxStateStart"
  by (simp add: rxStateStart_def groupsOf_lit setsGroup_Seq1 setsGroup_Seq2 setsGroup_Group_Plus)

lemma rxStateEnd_group: "setsGroup ci 1 (\<lambda>s. s \<noteq> []) rxStateEnd"
  by (simp add: rxStateEnd_def groupsOf_lit setsGroup_Seq1 setsGroup_Seq2 setsGroup_Group_Plus)

lemma rxStateTrans_groups:
  "setsGroup ci 1 (\<lambda>s. s \<noteq> []) rxStateTrans" "setsGroup ci 2 (\<lambda>s. s \<noteq> []) rxStateTrans"
  by (simp_all add: rxStateTrans_def groupsOf_lit setsGroup_Seq1 setsGroup_Seq2 setsGroup_Group_Plus)

text \<open>The state diagram of scenario 2.\<close>

definition stateScenario :: string where
  "stateScenario =
     ''stateDiagram-v2\<newline>    [*] --> Idle\<newline>    Idle --> Done\<newline>    Done --> [*]''"

lemma stateScenario_collect:
  "stateCollect stateScenario =
     ([''[*]start'', ''Idle'', ''Done'', ''[*]end''],
      [\<lparr>transFrom = ''[*]start'', transTo = ''Idle'', transLabel = None\<rparr>,
       \<lparr>transFrom = ''Idle'', transTo = ''Done'', transLabel = None\<rparr>,
       \<lparr>transFrom = ''Done'', transTo = ''[*]end'', transLabel = None\<rparr>])"
  by code_simp

lemma stateScenario_levels:
  "stateLevels [''[*]start'', ''Idle'', ''Done'', ''[*]end'']
      [\<lparr>transFrom = ''[*]start'', transTo = ''Idle'', transLabel = None\<rparr>,
       \<lparr>transFrom = ''Idle'', transTo = ''Done'', transLabel = None\<rparr>,
       \<lparr>transFrom = ''Done'', transTo = ''[*]end'', transLabel = None\<rparr>]
   = [(''[*]start'', 0), (''Idle'', 1), (''Done'', 2), (''[*]end'', 3)]"
  by code_simp

lemma stateScenario_nodes:
  "map (stateNode [(''[*]start'', 0), (''Idle'', 1), (''Done'', 2), (''[*]end'', 3)]
          (foldl levelGroupStep [] [(''[*]start'', 0), (''Idle'', 1), (''Done'', 2), (''[*]end'', 3)]))
       [''[*]start'', ''Idle'', ''Done'', ''[*]end'']
   = [\<lparr>stateId = ''[*]start'', stateLabel = [], stateX = 100, stateY = 300,
        isStart = True, isEnd = False\<rparr>,
      \<lparr>stateId = ''Idle'', stateLabel = ''Idle'', stateX = 280, stateY = 300,
        isStart = False, isEnd = False\<rparr>,
      \<lparr>stateId = ''Done'', stateLabel = ''Done'', stateX = 460, stateY = 300,
        isStart = False, isEnd = False\<rparr>,
      \<lparr>stateId = ''[*]end'', stateLabel = [], stateX = 640, stateY = 300,
        isStart = False, isEnd = True\<rparr>]"
  by code_simp

text \<open>
  C7. For the state diagram with the lines \<open>[*] --> Idle\<close>, \<open>Idle --> Done\<close>,
  \<open>Done --> [*]\<close> the parser yields the four states start marker, \<open>Idle\<close>, \<open>Done\<close>,
  end marker, with levels 0, 1, 2, 3 (\<open>x = 100 + 180 * level\<close>), and the three
  transitions; the two markers have an empty label; the start marker is flagged
  \<open>isStart\<close> and drawn as a filled circle, the end marker is flagged \<open>isEnd\<close> and drawn
  as a double ring.
\<close>

theorem state_scenario:
  "stateLevels (fst (stateCollect stateScenario)) (snd (stateCollect stateScenario))
     = [(''[*]start'', 0), (''Idle'', 1), (''Done'', 2), (''[*]end'', 3)]
   \<and> parseStateDiagram stateScenario =
       \<lparr>stateNodes =
          [\<lparr>stateId = ''[*]start'', stateLabel = [], stateX = 100, stateY = 300,
             isStart = True, isEnd = False\<rparr>,
           \<lparr>stateId = ''Idle'', stateLabel = ''Idle'', stateX = 280, stateY = 300,
             isStart = False, isEnd = False\<rparr>,
           \<lparr>stateId = ''Done'', stateLabel = ''Done'', stateX = 460, stateY = 300,
             isStart = False, isEnd = False\<rparr>,
           \<lparr>stateId = ''[*]end'', stateLabel = [], stateX = 640, stateY = 300,
             isStart = False, isEnd = True\<rparr>],
        stateTransitions =
          [\<lparr>transFrom = ''[*]start'', transTo = ''Idle'', transLabel = None\<rparr>,
           \<lparr>transFrom = ''Idle'', transTo = ''Done'', transLabel = None\<rparr>,
           \<lparr>transFrom = ''Done'', transTo = ''[*]end'', transLabel = None\<rparr>]\<rparr>
   \<and> map stateGlyph (stateNodes (parseStateDiagram stateScenario))
       = [filledCircle, roundedBox, roundedBox, doubleRing]"
proof -
  have p: "parseStateDiagram stateScenario =
       \<lparr>stateNodes =
          [\<lparr>stateId = ''[*]start'', stateLabel = [], stateX = 100, stateY = 300,
             isStart = True, isEnd = False\<rparr>,
           \<lparr>stateId = ''Idle'', stateLabel = ''Idle'', stateX = 280, stateY = 300,
             isStart = False, isEnd = False\<rparr>,
           \<lparr>stateId = ''Done'', stateLabel = ''Done'', stateX = 460, stateY = 300,
             isStart = False, isEnd = False\<rparr>,
           \<lparr>stateId = ''[*]end'', stateLabel = [], stateX = 640, stateY = 300,
             isStart = False, isEnd = True\<rparr>],
        stateTransitions =
          [\<lparr>transFrom = ''[*]start'', transTo = ''Idle'', transLabel = None\<rparr>,
           \<lparr>transFrom = ''Idle'', transTo = ''Done'', transLabel = None\<rparr>,
           \<lparr>transFrom = ''Done'', transTo = ''[*]end'', transLabel = None\<rparr>]\<rparr>"
    unfolding parseStateDiagram_def Let_def stateScenario_collect fst_conv snd_conv
      stateScenario_levels stateScenario_nodes by (rule refl)
  have l: "stateLevels (fst (stateCollect stateScenario)) (snd (stateCollect stateScenario))
     = [(''[*]start'', 0), (''Idle'', 1), (''Done'', 2), (''[*]end'', 3)]"
    unfolding stateScenario_collect fst_conv snd_conv by (rule stateScenario_levels)
  have g: "map stateGlyph (stateNodes (parseStateDiagram stateScenario))
       = [filledCircle, roundedBox, roundedBox, doubleRing]"
    unfolding p by (simp add: stateGlyph_def)
  show ?thesis using l p g by (intro conjI)
qed

section \<open>Properties of the mindmap parser\<close>

lemma rxRoot_group: "setsGroup ci 1 (\<lambda>s. s \<noteq> []) rxRoot"
  by (simp add: rxRoot_def setsGroup_Seq1 setsGroup_Seq2 setsGroup_Group_Plus)

lemma rxIndent_group: "setsGroup ci 1 (\<lambda>s. True) rxIndent"
  by (simp add: rxIndent_def setsGroup_Seq2 setsGroup_Group)

text \<open>A line that is not skipped has a non-empty label, so it always yields a node.\<close>

lemma lineLabel_nonempty: "\<not> skipLine l \<Longrightarrow> lineLabel l \<noteq> []"
proof (cases "match False rxRoot (trim l)")
  case None
  then show "\<not> skipLine l \<Longrightarrow> lineLabel l \<noteq> []" by (simp add: lineLabel_def skipLine_def)
next
  case (Some m)
  from match_sets_group [OF rxRoot_group Some] show ?thesis using Some by (simp add: lineLabel_def)
qed

lemma mindmapStep_skip: "skipLine l \<Longrightarrow> mindmapStep bc st l = st"
  by (simp add: mindmapStep_def)

lemma foldl_mindmapStep_filter:
  "foldl (mindmapStep bc) st ls = foldl (mindmapStep bc) st (filter (\<lambda>l. \<not> skipLine l) ls)"
  by (induction ls arbitrary: st) (simp_all add: mindmapStep_skip)

lemma branchCount_levels:
  "branchCount ls = length (filter (\<lambda>n. n = 1) (map lineLevel (filter (\<lambda>l. \<not> skipLine l) ls)))"
  by (induction ls) (simp_all add: branchCount_def)

text \<open>Whenever a level-1 line is processed, step 1 has counted it.\<close>

lemma branchCount_pos:
  "l \<in> set ls \<Longrightarrow> \<not> skipLine l \<Longrightarrow> lineLevel l = 1 \<Longrightarrow> 0 < branchCount ls"
  unfolding branchCount_def by (simp add: length_greater_0_conv filter_empty_conv, blast)

lemma showNat_small:
  "showNat 0 = ''0''" "showNat (Suc 0) = ''1''" "showNat (Suc (Suc 0)) = ''2''"
  "showNat (Suc (Suc (Suc 0))) = ''3''" "showNat 1 = ''1''" "showNat 2 = ''2''" "showNat 3 = ''3''"
  by code_simp+

lemma sq_radius: "(r * cos a)\<^sup>2 + (r * sin a)\<^sup>2 = r\<^sup>2" for r a :: real
proof -
  have "(r * cos a)\<^sup>2 + (r * sin a)\<^sup>2 = r\<^sup>2 * (cos a)\<^sup>2 + r\<^sup>2 * (sin a)\<^sup>2"
    by (simp only: power_mult_distrib)
  also have "\<dots> = r\<^sup>2 * ((cos a)\<^sup>2 + (sin a)\<^sup>2)"
    by (simp only: distrib_left)
  also have "\<dots> = r\<^sup>2"
    by (simp only: sin_cos_squared_add2 mult_1_right)
  finally show ?thesis .
qed

text \<open>The lines that yield a node, in text order.\<close>

definition contentLines :: "string \<Rightarrow> string list" where
  "contentLines diagram = filter (\<lambda>l. \<not> skipLine l) (splitLines diagram)"

lemma mindmap_root_three:
  assumes "\<not> skipLine l0" "\<not> skipLine l1" "\<not> skipLine l2" "\<not> skipLine l3"
    and "lineLevel l0 = 0" "lineLevel l1 = 1" "lineLevel l2 = 1" "lineLevel l3 = 1"
  shows "msNodes (foldl (mindmapStep 3)
           \<lparr>msNodes = [], msConnections = [], nodeId = 0, levelStack = [],
            currentBranchIndex = 0, childCountPerParent = Map.empty\<rparr> [l0, l1, l2, l3]) =
          [\<lparr>mmId = ''node-0'', mmLabel = lineLabel l0, mmLevel = 0, mmX = 400, mmY = 300,
            parentId = None, isRoot = True\<rparr>,
           \<lparr>mmId = ''node-1'', mmLabel = lineLabel l1, mmLevel = 1,
            mmX = 400 + 160 * cos (0 * (2 * pi / 3) - pi / 2),
            mmY = 300 + 160 * sin (0 * (2 * pi / 3) - pi / 2),
            parentId = Some ''node-0'', isRoot = False\<rparr>,
           \<lparr>mmId = ''node-2'', mmLabel = lineLabel l2, mmLevel = 1,
            mmX = 400 + 160 * cos (1 * (2 * pi / 3) - pi / 2),
            mmY = 300 + 160 * sin (1 * (2 * pi / 3) - pi / 2),
            parentId = Some ''node-0'', isRoot = False\<rparr>,
           \<lparr>mmId = ''node-3'', mmLabel = lineLabel l3, mmLevel = 1,
            mmX = 400 + 160 * cos (2 * (2 * pi / 3) - pi / 2),
            mmY = 300 + 160 * sin (2 * (2 * pi / 3) - pi / 2),
            parentId = Some ''node-0'', isRoot = False\<rparr>]
       \<and> msConnections (foldl (mindmapStep 3)
           \<lparr>msNodes = [], msConnections = [], nodeId = 0, levelStack = [],
            currentBranchIndex = 0, childCountPerParent = Map.empty\<rparr> [l0, l1, l2, l3]) =
          [\<lparr>connFrom = ''node-0'', connTo = ''node-1''\<rparr>,
           \<lparr>connFrom = ''node-0'', connTo = ''node-2''\<rparr>,
           \<lparr>connFrom = ''node-0'', connTo = ''node-3''\<rparr>]"
  using assms lineLabel_nonempty [OF assms(1)] lineLabel_nonempty [OF assms(2)]
    lineLabel_nonempty [OF assms(3)] lineLabel_nonempty [OF assms(4)]
  by (simp add: mindmapStep_def Let_def popLevels_def showNat_small)

lemma mindmap_three_layout:
  assumes "map lineLevel (contentLines d) = [0, 1, 1, 1]"
  shows "mmNodes (parseMindmap d) =
           \<lparr>mmId = ''node-0'', mmLabel = lineLabel (contentLines d ! 0), mmLevel = 0,
            mmX = 400, mmY = 300, parentId = None, isRoot = True\<rparr>
           # map (\<lambda>i. \<lparr>mmId = ''node-'' @ showNat (Suc i),
                        mmLabel = lineLabel (contentLines d ! Suc i), mmLevel = 1,
                        mmX = 400 + 160 * cos (real i * (2 * pi / 3) - pi / 2),
                        mmY = 300 + 160 * sin (real i * (2 * pi / 3) - pi / 2),
                        parentId = Some ''node-0'', isRoot = False\<rparr>) [0, 1, 2]
       \<and> connections (parseMindmap d) =
           map (\<lambda>i. \<lparr>connFrom = ''node-0'', connTo = ''node-'' @ showNat (Suc i)\<rparr>) [0, 1, 2]"
proof -
  from assms have "length (contentLines d) = 4"
    using length_map [of lineLevel "contentLines d"] by simp
  then obtain l0 l1 l2 l3 where cl: "contentLines d = [l0, l1, l2, l3]"
    by (auto simp: length_Suc_conv numeral_eq_Suc)
  have lv: "lineLevel l0 = 0" "lineLevel l1 = 1" "lineLevel l2 = 1" "lineLevel l3 = 1"
    using assms by (simp_all add: cl)
  have "set (contentLines d) = {l0, l1, l2, l3}" by (simp add: cl)
  then have ns: "\<not> skipLine l0" "\<not> skipLine l1" "\<not> skipLine l2" "\<not> skipLine l3"
    unfolding contentLines_def by auto
  have bc: "branchCount (splitLines d) = 3"
    using assms by (simp add: branchCount_levels contentLines_def [symmetric])
  note r = mindmap_root_three [OF ns lv]
  have fold: "foldl (mindmapStep 3) st (splitLines d) = foldl (mindmapStep 3) st [l0, l1, l2, l3]" for st
    using foldl_mindmapStep_filter [of 3 st "splitLines d"] cl by (simp add: contentLines_def)
  have nodes: "mmNodes (parseMindmap d) =
           \<lparr>mmId = ''node-0'', mmLabel = lineLabel (contentLines d ! 0), mmLevel = 0,
            mmX = 400, mmY = 300, parentId = None, isRoot = True\<rparr>
           # map (\<lambda>i. \<lparr>mmId = ''node-'' @ showNat (Suc i),
                        mmLabel = lineLabel (contentLines d ! Suc i), mmLevel = 1,
                        mmX = 400 + 160 * cos (real i * (2 * pi / 3) - pi / 2),
                        mmY = 300 + 160 * sin (real i * (2 * pi / 3) - pi / 2),
                        parentId = Some ''node-0'', isRoot = False\<rparr>) [0, 1, 2]"
    using r by (simp add: parseMindmap_def Let_def bc fold cl showNat_small)
  have conns: "connections (parseMindmap d) =
           map (\<lambda>i. \<lparr>connFrom = ''node-0'', connTo = ''node-'' @ showNat (Suc i)\<rparr>) [0, 1, 2]"
    using r by (simp add: parseMindmap_def Let_def bc fold showNat_small)
  show ?thesis using nodes conns by (rule conjI)
qed

text \<open>
  A mindmap whose node lines are a line of level 0 (indented by fewer than four
  characters) followed by exactly three lines of level 1 (indented by four to seven
  characters): the nodes are the root at the centre \<open>(400, 300)\<close> and the three
  children, child \<open>i\<close> at angle \<open>i * (2 * pi / 3) - pi / 2\<close> and radius \<open>160\<close> around the
  centre; the connections are exactly the three root-to-child connections.
\<close>

lemma mindmap_three_branches:
  assumes "map lineLevel (contentLines d) = [0, 1, 1, 1]"
  shows "mmNodes (parseMindmap d) =
           \<lparr>mmId = ''node-0'', mmLabel = lineLabel (contentLines d ! 0), mmLevel = 0,
            mmX = 400, mmY = 300, parentId = None, isRoot = True\<rparr>
           # map (\<lambda>i. \<lparr>mmId = ''node-'' @ showNat (Suc i),
                        mmLabel = lineLabel (contentLines d ! Suc i), mmLevel = 1,
                        mmX = 400 + 160 * cos (real i * (2 * pi / 3) - pi / 2),
                        mmY = 300 + 160 * sin (real i * (2 * pi / 3) - pi / 2),
                        parentId = Some ''node-0'', isRoot = False\<rparr>) [0, 1, 2]
       \<and> connections (parseMindmap d) =
           map (\<lambda>i. \<lparr>connFrom = ''node-0'', connTo = ''node-'' @ showNat (Suc i)\<rparr>) [0, 1, 2]
       \<and> (\<forall>n \<in> set (tl (mmNodes (parseMindmap d))).
             (mmX n - 400)\<^sup>2 + (mmY n - 300)\<^sup>2 = 160\<^sup>2)"
proof -
  note l = mindmap_three_layout [OF assms]
  note nodes = l [THEN conjunct1]
  note conns = l [THEN conjunct2]
  have rad: "(mmX n - 400)\<^sup>2 + (mmY n - 300)\<^sup>2 = 160\<^sup>2"
    if "n \<in> set (tl (mmNodes (parseMindmap d)))" for n
  proof -
    let ?f = "\<lambda>i. \<lparr>mmId = ''node-'' @ showNat (Suc i),
                        mmLabel = lineLabel (contentLines d ! Suc i), mmLevel = 1,
                        mmX = 400 + 160 * cos (real i * (2 * pi / 3) - pi / 2),
                        mmY = 300 + 160 * sin (real i * (2 * pi / 3) - pi / 2),
                        parentId = Some ''node-0'', isRoot = False\<rparr>"
    from that have "n \<in> set (map ?f [0, 1, 2])" unfolding nodes list.sel(3) .
    then obtain i :: nat where "n = ?f i" unfolding set_map by blast
    then have "mmX n - 400 = 160 * cos (real i * (2 * pi / 3) - pi / 2)"
      "mmY n - 300 = 160 * sin (real i * (2 * pi / 3) - pi / 2)" by simp_all
    then show ?thesis using sq_radius [of 160 "real i * (2 * pi / 3) - pi / 2"] by simp
  qed
  show ?thesis using nodes conns rad by blast
qed

definition mindmapExample :: string where
  "mindmapExample = ''mindmap\<newline>  root((Core))\<newline>    Alpha\<newline>    Beta\<newline>    Gamma''"

lemma mindmapExample_levels: "map lineLevel (contentLines mindmapExample) = [0, 1, 1, 1]"
  by code_simp

lemma mindmapExample_labels:
  "map lineLabel (contentLines mindmapExample) = [''Core'', ''Alpha'', ''Beta'', ''Gamma'']"
  by code_simp

lemma mindmapExample_layout:
  "map mmId (mmNodes (parseMindmap mindmapExample)) = [''node-0'', ''node-1'', ''node-2'', ''node-3'']"
  "connections (parseMindmap mindmapExample) =
     [\<lparr>connFrom = ''node-0'', connTo = ''node-1''\<rparr>,
      \<lparr>connFrom = ''node-0'', connTo = ''node-2''\<rparr>,
      \<lparr>connFrom = ''node-0'', connTo = ''node-3''\<rparr>]"
  using mindmap_three_layout [OF mindmapExample_levels] by (simp_all add: showNat_small)

lemma mindmap_three_branches_example:
  "map lineLevel (contentLines mindmapExample) = [0, 1, 1, 1]
   \<and> map mmId (mmNodes (parseMindmap mindmapExample)) = [''node-0'', ''node-1'', ''node-2'', ''node-3'']
   \<and> map mmLabel (mmNodes (parseMindmap mindmapExample)) = [''Core'', ''Alpha'', ''Beta'', ''Gamma'']
   \<and> connections (parseMindmap mindmapExample) =
        [\<lparr>connFrom = ''node-0'', connTo = ''node-1''\<rparr>,
         \<lparr>connFrom = ''node-0'', connTo = ''node-2''\<rparr>,
         \<lparr>connFrom = ''node-0'', connTo = ''node-3''\<rparr>]"
proof -
  have len: "length (contentLines mindmapExample) = 4"
    using mindmapExample_levels length_map [of lineLevel "contentLines mindmapExample"] by simp
  have nm: "lineLabel (contentLines mindmapExample ! i) = map lineLabel (contentLines mindmapExample) ! i"
    if "i < 4" for i using that len by simp
  have lab: "lineLabel (contentLines mindmapExample ! 0) = ''Core''"
    "lineLabel (contentLines mindmapExample ! Suc 0) = ''Alpha''"
    "lineLabel (contentLines mindmapExample ! Suc (Suc 0)) = ''Beta''"
    "lineLabel (contentLines mindmapExample ! 3) = ''Gamma''"
    using nm [of 0] nm [of "Suc 0"] nm [of "Suc (Suc 0)"] nm [of 3]
    by (simp_all add: mindmapExample_labels)
  show ?thesis
    using mindmap_three_branches [OF mindmapExample_levels] mindmapExample_levels lab
    by (simp add: showNat_small)
qed

subsection \<open>A root indented by four blanks\<close>

text \<open>
  The same mindmap written the way the sample diagram of the repository is written:
  the root indented by four blanks and its children by eight.
\<close>

definition mindmapIndented :: string where
  "mindmapIndented = ''mindmap\<newline>    root((Core))\<newline>        Alpha\<newline>        Beta\<newline>        Gamma''"

lemma mindmapIndented_lines:
  "contentLines mindmapIndented = [''    root((Core))'', ''        Alpha'', ''        Beta'', ''        Gamma'']"
  by code_simp

lemma mindmapIndented_levels: "map lineLevel (contentLines mindmapIndented) = [1, 2, 2, 2]"
  by code_simp

lemma mindmapIndented_labels:
  "map lineLabel (contentLines mindmapIndented) = [''Core'', ''Alpha'', ''Beta'', ''Gamma'']"
  by code_simp

lemma mindmap_indented_three:
  assumes "\<not> skipLine l0" "\<not> skipLine l1" "\<not> skipLine l2" "\<not> skipLine l3"
    and "lineLevel l0 = 1" "lineLevel l1 = 2" "lineLevel l2 = 2" "lineLevel l3 = 2"
  shows "msNodes (foldl (mindmapStep 1)
           \<lparr>msNodes = [], msConnections = [], nodeId = 0, levelStack = [],
            currentBranchIndex = 0, childCountPerParent = Map.empty\<rparr> [l0, l1, l2, l3]) =
          [\<lparr>mmId = ''node-0'', mmLabel = lineLabel l0, mmLevel = 1, mmX = 400, mmY = 300,
            parentId = None, isRoot = False\<rparr>,
           \<lparr>mmId = ''node-1'', mmLabel = lineLabel l1, mmLevel = 2,
            mmX = 400 + 280 * cos (- pi / 6), mmY = 300 + 280 * sin (- pi / 6),
            parentId = Some ''node-0'', isRoot = False\<rparr>,
           \<lparr>mmId = ''node-2'', mmLabel = lineLabel l2, mmLevel = 2,
            mmX = 400 + 280 * cos 0, mmY = 300 + 280 * sin 0,
            parentId = Some ''node-0'', isRoot = False\<rparr>,
           \<lparr>mmId = ''node-3'', mmLabel = lineLabel l3, mmLevel = 2,
            mmX = 400 + 280 * cos (pi / 6), mmY = 300 + 280 * sin (pi / 6),
            parentId = Some ''node-0'', isRoot = False\<rparr>]
       \<and> msConnections (foldl (mindmapStep 1)
           \<lparr>msNodes = [], msConnections = [], nodeId = 0, levelStack = [],
            currentBranchIndex = 0, childCountPerParent = Map.empty\<rparr> [l0, l1, l2, l3]) =
          [\<lparr>connFrom = ''node-0'', connTo = ''node-1''\<rparr>,
           \<lparr>connFrom = ''node-0'', connTo = ''node-2''\<rparr>,
           \<lparr>connFrom = ''node-0'', connTo = ''node-3''\<rparr>]"
  using assms lineLabel_nonempty [OF assms(1)] lineLabel_nonempty [OF assms(2)]
    lineLabel_nonempty [OF assms(3)] lineLabel_nonempty [OF assms(4)]
  by (simp add: mindmapStep_def Let_def popLevels_def showNat_small)

text \<open>
  C9. For the mindmap with a root and three children, written with the root indented
  by four blanks and the children by eight: the root line has level 1, so it is not
  flagged as the root and it is the only line counted as a main branch; the three
  children have level 2 and are placed at the angles \<open>- pi / 6\<close>, \<open>0\<close> and \<open>pi / 6\<close>
  (consecutive angles \<open>pi / 6\<close> apart, not \<open>2 * pi / 3\<close>) at radius \<open>280\<close> (not the
  branch radius \<open>160\<close>) around the centre. The connections are the three root-to-child
  connections.
\<close>

theorem mindmap_indented_root:
  "mmNodes (parseMindmap mindmapIndented) =
     [\<lparr>mmId = ''node-0'', mmLabel = ''Core'', mmLevel = 1, mmX = 400, mmY = 300,
       parentId = None, isRoot = False\<rparr>,
      \<lparr>mmId = ''node-1'', mmLabel = ''Alpha'', mmLevel = 2,
       mmX = 400 + 280 * cos (- pi / 6), mmY = 300 + 280 * sin (- pi / 6),
       parentId = Some ''node-0'', isRoot = False\<rparr>,
      \<lparr>mmId = ''node-2'', mmLabel = ''Beta'', mmLevel = 2,
       mmX = 400 + 280 * cos 0, mmY = 300 + 280 * sin 0,
       parentId = Some ''node-0'', isRoot = False\<rparr>,
      \<lparr>mmId = ''node-3'', mmLabel = ''Gamma'', mmLevel = 2,
       mmX = 400 + 280 * cos (pi / 6), mmY = 300 + 280 * sin (pi / 6),
       parentId = Some ''node-0'', isRoot = False\<rparr>]
   \<and> connections (parseMindmap mindmapIndented) =
     [\<lparr>connFrom = ''node-0'', connTo = ''node-1''\<rparr>,
      \<lparr>connFrom = ''node-0'', connTo = ''node-2''\<rparr>,
      \<lparr>connFrom = ''node-0'', connTo = ''node-3''\<rparr>]
   \<and> branchCount (splitLines mindmapIndented) = 1"
proof -
  let ?l0 = "''    root((Core))''" and ?l1 = "''        Alpha''"
  let ?l2 = "''        Beta''" and ?l3 = "''        Gamma''"
  note cl = mindmapIndented_lines
  have lv: "lineLevel ?l0 = 1" "lineLevel ?l1 = 2" "lineLevel ?l2 = 2" "lineLevel ?l3 = 2"
    using mindmapIndented_levels by (simp_all add: cl)
  have lb: "lineLabel ?l0 = ''Core''" "lineLabel ?l1 = ''Alpha''" "lineLabel ?l2 = ''Beta''"
    "lineLabel ?l3 = ''Gamma''"
    using mindmapIndented_labels by (simp_all add: cl)
  have "set (contentLines mindmapIndented) = {?l0, ?l1, ?l2, ?l3}" by (simp add: cl)
  then have ns: "\<not> skipLine ?l0" "\<not> skipLine ?l1" "\<not> skipLine ?l2" "\<not> skipLine ?l3"
    unfolding contentLines_def by auto
  have bc: "branchCount (splitLines mindmapIndented) = 1"
    using mindmapIndented_levels by (simp add: branchCount_levels contentLines_def [symmetric])
  note r = mindmap_indented_three [OF ns lv]
  have fold: "foldl (mindmapStep 1) st (splitLines mindmapIndented)
      = foldl (mindmapStep 1) st [?l0, ?l1, ?l2, ?l3]" for st
    using foldl_mindmapStep_filter [of 1 st "splitLines mindmapIndented"] cl
    by (simp add: contentLines_def)
  have nodes: "mmNodes (parseMindmap mindmapIndented) =
     [\<lparr>mmId = ''node-0'', mmLabel = ''Core'', mmLevel = 1, mmX = 400, mmY = 300,
       parentId = None, isRoot = False\<rparr>,
      \<lparr>mmId = ''node-1'', mmLabel = ''Alpha'', mmLevel = 2,
       mmX = 400 + 280 * cos (- pi / 6), mmY = 300 + 280 * sin (- pi / 6),
       parentId = Some ''node-0'', isRoot = False\<rparr>,
      \<lparr>mmId = ''node-2'', mmLabel = ''Beta'', mmLevel = 2,
       mmX = 400 + 280 * cos 0, mmY = 300 + 280 * sin 0,
       parentId = Some ''node-0'', isRoot = False\<rparr>,
      \<lparr>mmId = ''node-3'', mmLabel = ''Gamma'', mmLevel = 2,
       mmX = 400 + 280 * cos (pi / 6), mmY = 300 + 280 * sin (pi / 6),
       parentId = Some ''node-0'', isRoot = False\<rparr>]"
    using r [THEN conjunct1] unfolding lb
    by (simp only: parseMindmap_def Let_def bc fold mindmapData.simps)
  have conns: "connections (parseMindmap mindmapIndented) =
     [\<lparr>connFrom = ''node-0'', connTo = ''node-1''\<rparr>,
      \<lparr>connFrom = ''node-0'', connTo = ''node-2''\<rparr>,
      \<lparr>connFrom = ''node-0'', connTo = ''node-3''\<rparr>]"
    using r [THEN conjunct2]
    by (simp only: parseMindmap_def Let_def bc fold mindmapData.simps)
  show ?thesis by (rule conjI [OF nodes conjI [OF conns bc]])
qed

section \<open>Properties of the topological sort\<close>

subsection \<open>Insertion-ordered maps\<close>

lemma mapGet_mapSet: "mapGet (mapSet m k v) k' = (if k' = k then Some v else mapGet m k')"
  by (induction m) (auto simp: mapGet_def)

lemma mapSet_distinct: "distinct (map fst m) \<Longrightarrow> distinct (map fst (mapSet m k v))"
proof (induction m)
  case Nil
  then show ?case by simp
next
  case (Cons p m)
  have "fst ` set (mapSet m k v) = insert k (fst ` set m)" by (rule mapSet_keys)
  then show ?case using Cons by auto
qed

lemma mapGet_keys: "(mapGet m k \<noteq> None) = (k \<in> fst ` set m)"
  by (simp add: mapGet_def map_of_eq_None_iff)

lemma mapGet_entry: "distinct (map fst m) \<Longrightarrow> ((k, v) \<in> set m) = (mapGet m k = Some v)"
  by (simp add: mapGet_def)

subsection \<open>The in-degree and adjacency maps\<close>

text \<open>The number of edges into \<open>k\<close> whose source is not in \<open>vis\<close>.\<close>

definition indegFrom :: "EdgeData list \<Rightarrow> string list \<Rightarrow> string \<Rightarrow> nat" where
  "indegFrom es vis k = length (filter (\<lambda>e. edgeTo e = k \<and> edgeFrom e \<notin> set vis) es)"

text \<open>The targets of the edges leaving \<open>k\<close>, in edge order.\<close>

definition targets :: "EdgeData list \<Rightarrow> string \<Rightarrow> string list" where
  "targets es k = map edgeTo (filter (\<lambda>e. edgeFrom e = k) es)"

lemma init_map:
  "mapGet (foldl (\<lambda>m kn. mapSet m (fst kn) c) m0 nm) k =
     (if k \<in> fst ` set nm then Some c else mapGet m0 k)
   \<and> fst ` set (foldl (\<lambda>m kn. mapSet m (fst kn) c) m0 nm) = fst ` set m0 \<union> fst ` set nm
   \<and> (distinct (map fst m0) \<longrightarrow> distinct (map fst (foldl (\<lambda>m kn. mapSet m (fst kn) c) m0 nm)))"
proof (induction nm arbitrary: m0)
  case Nil
  then show ?case by simp
next
  case (Cons p nm)
  show ?case
    using Cons [of "mapSet m0 (fst p) c"]
    by (auto simp: mapGet_mapSet mapSet_keys mapSet_distinct)
qed

lemma foldl_flowInDegreeStep:
  "mapGet (foldl flowInDegreeStep m es) k =
     (if filter (\<lambda>e. edgeTo e = k) es = [] then mapGet m k
      else Some ((case mapGet m k of Some d \<Rightarrow> d | None \<Rightarrow> 0) + length (filter (\<lambda>e. edgeTo e = k) es)))
   \<and> fst ` set (foldl flowInDegreeStep m es) = fst ` set m \<union> edgeTo ` set es
   \<and> (distinct (map fst m) \<longrightarrow> distinct (map fst (foldl flowInDegreeStep m es)))"
proof (induction es arbitrary: m)
  case Nil
  then show ?case by simp
next
  case (Cons e es)
  let ?m = "flowInDegreeStep m e"
  have g: "mapGet ?m k = (if k = edgeTo e
        then Some ((case mapGet m k of Some d \<Rightarrow> d | None \<Rightarrow> 0) + 1) else mapGet m k)"
    by (simp add: flowInDegreeStep_def mapGet_mapSet)
  have ks: "fst ` set ?m = insert (edgeTo e) (fst ` set m)"
    by (simp add: flowInDegreeStep_def mapSet_keys)
  have d: "distinct (map fst m) \<longrightarrow> distinct (map fst ?m)"
    by (simp add: flowInDegreeStep_def mapSet_distinct)
  show ?case using Cons [of ?m] g ks d by (auto split: option.splits)
qed

lemma foldl_flowAdjacencyStep:
  "mapGet (foldl flowAdjacencyStep m es) k =
     (case mapGet m k of None \<Rightarrow> None | Some ns \<Rightarrow> Some (ns @ targets es k))"
proof (induction es arbitrary: m)
  case Nil
  then show ?case by (simp add: targets_def split: option.splits)
next
  case (Cons e es)
  let ?m = "flowAdjacencyStep m e"
  have g: "mapGet ?m k = (case mapGet m k of None \<Rightarrow> None
        | Some ns \<Rightarrow> Some (if k = edgeFrom e then ns @ [edgeTo e] else ns))"
    by (auto simp: flowAdjacencyStep_def mapGet_mapSet split: option.splits)
  show ?case using Cons [of ?m] g by (auto simp: targets_def split: option.splits)
qed

text \<open>Accepted edges have both endpoints in the geometry map.\<close>

lemma foldl_acceptEdgeStep:
  "(\<forall>e \<in> set acc. edgeFrom e \<in> fst ` set nm \<and> edgeTo e \<in> fst ` set nm) \<Longrightarrow>
   \<forall>e \<in> set (foldl (acceptEdgeStep nm) acc les). edgeFrom e \<in> fst ` set nm \<and> edgeTo e \<in> fst ` set nm"
proof (induction les arbitrary: acc)
  case Nil
  then show ?case by simp
next
  case (Cons le les)
  have "\<forall>e \<in> set (acceptEdgeStep nm acc le). edgeFrom e \<in> fst ` set nm \<and> edgeTo e \<in> fst ` set nm"
  proof (cases "mapGet nm (leFrom le) \<noteq> None \<and> mapGet nm (leTo le) \<noteq> None")
    case True
    then obtain a b where ab: "mapGet nm (leFrom le) = Some a" "mapGet nm (leTo le) = Some b"
      by auto
    have mem: "leFrom le \<in> fst ` set nm" "leTo le \<in> fst ` set nm"
      using mapGet_keys [of nm "leFrom le"] mapGet_keys [of nm "leTo le"] ab by simp_all
    have st: "acceptEdgeStep nm acc le =
        acc @ [\<lparr>edgeFrom = leFrom le, edgeTo = leTo le, edgeLabel = leLabel le,
                 points = calculateEdgePoints a b\<rparr>]"
      by (simp add: acceptEdgeStep_def ab)
    show ?thesis unfolding st using Cons.prems mem by simp
  next
    case False
    then have "acceptEdgeStep nm acc le = acc"
      by (auto simp: acceptEdgeStep_def split: option.splits)
    then show ?thesis using Cons.prems by simp
  qed
  from Cons.IH [OF this] show ?case by simp
qed

lemma acceptEdges_endpoints:
  "e \<in> set (acceptEdges nm les) \<Longrightarrow> edgeFrom e \<in> fst ` set nm \<and> edgeTo e \<in> fst ` set nm"
  using foldl_acceptEdgeStep [of "[]" nm les] by (simp add: acceptEdges_def)

lemma flowInDegree_props:
  assumes "\<forall>e \<in> set es. edgeTo e \<in> fst ` set nm"
  shows "fst ` set (flowInDegree nm es) = fst ` set nm"
    and "distinct (map fst (flowInDegree nm es))"
    and "k \<in> fst ` set nm \<Longrightarrow> mapGet (flowInDegree nm es) k = Some (indegFrom es [] k)"
proof -
  let ?m0 = "foldl (\<lambda>m kn. mapSet m (fst kn) (0::nat)) [] nm"
  note i = init_map [of "0::nat" "[]" nm]
  note f = foldl_flowInDegreeStep [of ?m0 es]
  show "fst ` set (flowInDegree nm es) = fst ` set nm"
    using i f assms by (auto simp: flowInDegree_def)
  show "distinct (map fst (flowInDegree nm es))"
    using i f by (simp add: flowInDegree_def)
  show "mapGet (flowInDegree nm es) k = Some (indegFrom es [] k)" if "k \<in> fst ` set nm"
  proof -
    have "mapGet ?m0 k = Some 0" using i that by simp
    then show ?thesis using foldl_flowInDegreeStep [of ?m0 es k]
      by (simp add: flowInDegree_def indegFrom_def)
  qed
qed

lemma flowAdjacency_neighbors:
  assumes "\<forall>e \<in> set es. edgeFrom e \<in> fst ` set nm"
  shows "neighborsOf (flowAdjacency nm es) k = targets es k"
proof -
  let ?m0 = "foldl (\<lambda>m kn. mapSet m (fst kn) ([]::string list)) [] nm"
  note i = init_map [of "[]::string list" "[]" nm k]
  show ?thesis
  proof (cases "k \<in> fst ` set nm")
    case True
    then have "mapGet ?m0 k = Some []" using i by simp
    then show ?thesis using foldl_flowAdjacencyStep [of ?m0 es k]
      by (simp add: flowAdjacency_def neighborsOf_def)
  next
    case False
    then have "mapGet ?m0 k = None" using i by (simp add: mapGet_def)
    moreover have "targets es k = []" using assms False by (auto simp: targets_def filter_empty_conv)
    ultimately show ?thesis using foldl_flowAdjacencyStep [of ?m0 es k]
      by (simp add: flowAdjacency_def neighborsOf_def)
  qed
qed

subsection \<open>Relaxing the neighbours of a node\<close>

lemma relaxStep_normal:
  assumes "mapGet deg n = Some d" "0 < d"
  shows "relaxStep vis (deg, nxt) n =
           (mapSet deg n (d - 1), if d = 1 \<and> n \<notin> set vis then nxt @ [n] else nxt)"
  using assms by (auto simp: relaxStep_def Let_def)

lemma foldl_relaxStep:
  assumes "\<forall>k \<in> set ns. \<exists>d. mapGet deg k = Some d \<and> count_list ns k \<le> d"
  shows "(\<forall>k. mapGet (fst (foldl (relaxStep vis) (deg, nxt) ns)) k =
             (if k \<in> set ns then Some (the (mapGet deg k) - count_list ns k) else mapGet deg k))
       \<and> set (snd (foldl (relaxStep vis) (deg, nxt) ns)) =
           set nxt \<union> {k \<in> set ns. the (mapGet deg k) = count_list ns k \<and> k \<notin> set vis}"
  using assms
proof (induction ns arbitrary: deg nxt)
  case Nil
  then show ?case by simp
next
  case (Cons n ns)
  from Cons.prems obtain d where d: "mapGet deg n = Some d" "Suc (count_list ns n) \<le> d"
    by auto
  let ?deg = "mapSet deg n (d - 1)"
  let ?nxt = "if d = 1 \<and> n \<notin> set vis then nxt @ [n] else nxt"
  have step: "relaxStep vis (deg, nxt) n = (?deg, ?nxt)"
    using d by (intro relaxStep_normal) auto
  have pre: "\<forall>k \<in> set ns. \<exists>d'. mapGet ?deg k = Some d' \<and> count_list ns k \<le> d'"
  proof
    fix k assume k: "k \<in> set ns"
    show "\<exists>d'. mapGet ?deg k = Some d' \<and> count_list ns k \<le> d'"
    proof (cases "k = n")
      case True
      then show ?thesis using d by (simp add: mapGet_mapSet)
    next
      case False
      then show ?thesis using Cons.prems k by (auto simp: mapGet_mapSet)
    qed
  qed
  note ih = Cons.IH [OF pre, of ?nxt]
  have fold: "foldl (relaxStep vis) (deg, nxt) (n # ns) = foldl (relaxStep vis) (?deg, ?nxt) ns"
    by (simp only: foldl_Cons step)
  have A: "mapGet (fst (foldl (relaxStep vis) (deg, nxt) (n # ns))) k =
             (if k \<in> set (n # ns) then Some (the (mapGet deg k) - count_list (n # ns) k)
              else mapGet deg k)" for k
  proof (cases "k = n")
    case True
    show ?thesis
    proof (cases "n \<in> set ns")
      case True
      then show ?thesis using ih \<open>k = n\<close> d unfolding fold by (simp add: mapGet_mapSet)
    next
      case False
      then have "count_list ns n = 0" by (simp add: count_list_0_iff)
      then show ?thesis using ih \<open>k = n\<close> d False unfolding fold by (simp add: mapGet_mapSet)
    qed
  next
    case False
    then show ?thesis using ih unfolding fold by (simp add: mapGet_mapSet)
  qed
  have B: "set (snd (foldl (relaxStep vis) (deg, nxt) (n # ns))) =
           set nxt \<union> {k \<in> set (n # ns). the (mapGet deg k) = count_list (n # ns) k \<and> k \<notin> set vis}"
  proof -
    have s: "set (snd (foldl (relaxStep vis) (deg, nxt) (n # ns))) =
        set ?nxt \<union> {k \<in> set ns. the (mapGet ?deg k) = count_list ns k \<and> k \<notin> set vis}"
      using ih unfolding fold by blast
    have other: "the (mapGet ?deg k) = count_list ns k \<longleftrightarrow> the (mapGet deg k) = count_list (n # ns) k"
      if "k \<noteq> n" for k using that by (simp add: mapGet_mapSet)
    have self: "the (mapGet ?deg n) = count_list ns n \<longleftrightarrow> the (mapGet deg n) = count_list (n # ns) n"
      using d by (auto simp: mapGet_mapSet)
    have zero: "d = 1 \<longleftrightarrow> (the (mapGet deg n) = count_list (n # ns) n \<and> n \<notin> set ns)"
      using d by (auto simp: count_list_0_iff)
    show ?thesis unfolding s using other self zero by auto
  qed
  show ?case using A B by blast
qed

lemma indegFrom_snoc:
  "c \<notin> set vis \<Longrightarrow> indegFrom es (vis @ [c]) k + count_list (targets es c) k = indegFrom es vis k"
  by (induction es) (auto simp: indegFrom_def targets_def)

lemma indegFrom_mono: "indegFrom es (vis @ [c]) k \<le> indegFrom es vis k"
  by (induction es) (auto simp: indegFrom_def)

subsection \<open>The loop invariant\<close>

text \<open>\<open>a\<close> occurs at an earlier position of \<open>xs\<close> than \<open>b\<close>.\<close>

definition before :: "'a list \<Rightarrow> 'a \<Rightarrow> 'a \<Rightarrow> bool" where
  "before xs a b = (\<exists>i j. i < j \<and> j < length xs \<and> xs ! i = a \<and> xs ! j = b)"

lemma before_append: "before xs a b \<Longrightarrow> before (xs @ ys) a b"
  unfolding before_def by (metis length_append nth_append order_less_trans trans_less_add1)

lemma before_snoc: "a \<in> set xs \<Longrightarrow> before (xs @ [c]) a c"
proof -
  assume "a \<in> set xs"
  then obtain i where i: "i < length xs" "xs ! i = a" by (auto simp: in_set_conv_nth)
  have "i < length xs \<and> length xs < length (xs @ [c]) \<and> (xs @ [c]) ! i = a
      \<and> (xs @ [c]) ! length xs = c"
    using i by (simp add: nth_append)
  then show ?thesis unfolding before_def by blast
qed

definition kahnInv ::
  "nodeMap \<Rightarrow> EdgeData list \<Rightarrow> (string \<times> nat) list \<Rightarrow> string list \<Rightarrow> NodeData list
     \<Rightarrow> string list \<Rightarrow> bool" where
  "kahnInv nm es deg visited result queue =
     (set visited \<subseteq> fst ` set nm \<and> distinct visited
      \<and> result = map (\<lambda>k. the (mapGet nm k)) visited
      \<and> (\<forall>k \<in> fst ` set nm. mapGet deg k = Some (indegFrom es visited k))
      \<and> set queue \<subseteq> fst ` set nm
      \<and> (\<forall>q \<in> set queue. q \<notin> set visited \<longrightarrow> indegFrom es visited q = 0)
      \<and> (\<forall>k \<in> fst ` set nm. k \<notin> set visited \<and> indegFrom es visited k = 0 \<longrightarrow> k \<in> set queue)
      \<and> (\<forall>e \<in> set es. edgeTo e \<in> set visited \<longrightarrow>
            edgeFrom e \<in> set visited \<and> before visited (edgeFrom e) (edgeTo e)))"

lemma kahnInvD:
  assumes "kahnInv nm es deg visited result queue"
  shows "set visited \<subseteq> fst ` set nm"
    and "distinct visited"
    and "result = map (\<lambda>k. the (mapGet nm k)) visited"
    and "\<And>k. k \<in> fst ` set nm \<Longrightarrow> mapGet deg k = Some (indegFrom es visited k)"
    and "set queue \<subseteq> fst ` set nm"
    and "\<And>q. q \<in> set queue \<Longrightarrow> q \<notin> set visited \<Longrightarrow> indegFrom es visited q = 0"
    and "\<And>k. k \<in> fst ` set nm \<Longrightarrow> k \<notin> set visited \<Longrightarrow> indegFrom es visited k = 0
           \<Longrightarrow> k \<in> set queue"
    and "\<And>e. e \<in> set es \<Longrightarrow> edgeTo e \<in> set visited \<Longrightarrow> edgeFrom e \<in> set visited"
    and "\<And>e. e \<in> set es \<Longrightarrow> edgeTo e \<in> set visited \<Longrightarrow> before visited (edgeFrom e) (edgeTo e)"
proof -
  note a = assms [unfolded kahnInv_def]
  note c1 = a [THEN conjunct1]
  note r1 = a [THEN conjunct2]
  note c2 = r1 [THEN conjunct1]
  note r2 = r1 [THEN conjunct2]
  note c3 = r2 [THEN conjunct1]
  note r3 = r2 [THEN conjunct2]
  note c4 = r3 [THEN conjunct1]
  note r4 = r3 [THEN conjunct2]
  note c5 = r4 [THEN conjunct1]
  note r5 = r4 [THEN conjunct2]
  note c6 = r5 [THEN conjunct1]
  note r6 = r5 [THEN conjunct2]
  note c7 = r6 [THEN conjunct1]
  note c8 = r6 [THEN conjunct2]
  show "set visited \<subseteq> fst ` set nm" by (rule c1)
  show "distinct visited" by (rule c2)
  show "result = map (\<lambda>k. the (mapGet nm k)) visited" by (rule c3)
  show "mapGet deg k = Some (indegFrom es visited k)" if "k \<in> fst ` set nm" for k
    using c4 that by (rule bspec)
  show "set queue \<subseteq> fst ` set nm" by (rule c5)
  show "indegFrom es visited q = 0" if "q \<in> set queue" "q \<notin> set visited" for q
    using c6 [THEN bspec, OF that(1)] that(2) by (rule mp)
  show "k \<in> set queue" if "k \<in> fst ` set nm" "k \<notin> set visited" "indegFrom es visited k = 0" for k
    using c7 [THEN bspec, OF that(1)] that(2,3) by simp
  show "edgeFrom e \<in> set visited" if "e \<in> set es" "edgeTo e \<in> set visited" for e
    using c8 [THEN bspec, OF that(1)] that(2) by simp
  show "before visited (edgeFrom e) (edgeTo e)" if "e \<in> set es" "edgeTo e \<in> set visited" for e
    using c8 [THEN bspec, OF that(1)] that(2) by simp
qed

lemma kahnInvI:
  assumes "set visited \<subseteq> fst ` set nm"
    and "distinct visited"
    and "result = map (\<lambda>k. the (mapGet nm k)) visited"
    and "\<And>k. k \<in> fst ` set nm \<Longrightarrow> mapGet deg k = Some (indegFrom es visited k)"
    and "set queue \<subseteq> fst ` set nm"
    and "\<And>q. q \<in> set queue \<Longrightarrow> q \<notin> set visited \<Longrightarrow> indegFrom es visited q = 0"
    and "\<And>k. k \<in> fst ` set nm \<Longrightarrow> k \<notin> set visited \<Longrightarrow> indegFrom es visited k = 0
           \<Longrightarrow> k \<in> set queue"
    and "\<And>e. e \<in> set es \<Longrightarrow> edgeTo e \<in> set visited \<Longrightarrow> edgeFrom e \<in> set visited"
    and "\<And>e. e \<in> set es \<Longrightarrow> edgeTo e \<in> set visited \<Longrightarrow> before visited (edgeFrom e) (edgeTo e)"
  shows "kahnInv nm es deg visited result queue"
  unfolding kahnInv_def
proof (intro conjI ballI impI)
  show "set visited \<subseteq> fst ` set nm" by (rule assms(1))
  show "distinct visited" by (rule assms(2))
  show "result = map (\<lambda>k. the (mapGet nm k)) visited" by (rule assms(3))
  show "mapGet deg k = Some (indegFrom es visited k)" if "k \<in> fst ` set nm" for k
    using that by (rule assms(4))
  show "set queue \<subseteq> fst ` set nm" by (rule assms(5))
  show "indegFrom es visited q = 0" if "q \<in> set queue" "q \<notin> set visited" for q
    using that by (rule assms(6))
  show "k \<in> set queue"
    if "k \<in> fst ` set nm" "k \<notin> set visited \<and> indegFrom es visited k = 0" for k
    using assms(7) [of k] that by simp
  show "edgeFrom e \<in> set visited" if "e \<in> set es" "edgeTo e \<in> set visited" for e
    using that by (rule assms(8))
  show "before visited (edgeFrom e) (edgeTo e)" if "e \<in> set es" "edgeTo e \<in> set visited" for e
    using that by (rule assms(9))
qed

lemma kahnInv_skip:
  assumes "kahnInv nm es deg visited result (current # queue)" "current \<in> set visited"
  shows "kahnInv nm es deg visited result queue"
proof (rule kahnInvI)
  note d = kahnInvD [OF assms(1)]
  show "set visited \<subseteq> fst ` set nm" by (rule d(1))
  show "distinct visited" by (rule d(2))
  show "result = map (\<lambda>k. the (mapGet nm k)) visited" by (rule d(3))
  show "mapGet deg k = Some (indegFrom es visited k)" if "k \<in> fst ` set nm" for k
    using that by (rule d(4))
  show "set queue \<subseteq> fst ` set nm" using d(5) by simp
  show "indegFrom es visited q = 0" if "q \<in> set queue" "q \<notin> set visited" for q
    using d(6) [of q] that by simp
  show "k \<in> set queue"
    if "k \<in> fst ` set nm" "k \<notin> set visited" "indegFrom es visited k = 0" for k
    using d(7) [OF that] that(2) assms(2) by auto
  show "edgeFrom e \<in> set visited" if "e \<in> set es" "edgeTo e \<in> set visited" for e
    using that by (rule d(8))
  show "before visited (edgeFrom e) (edgeTo e)" if "e \<in> set es" "edgeTo e \<in> set visited" for e
    using that by (rule d(9))
qed

lemma set_sortByY: "set (sortByY nm xs) = set xs"
  by (simp add: sortByY_def)

lemma kahnInv_visit:
  assumes inv: "kahnInv nm es deg visited result (current # queue)"
    and unvisited: "current \<notin> set visited"
    and acc: "\<forall>e \<in> set es. edgeFrom e \<in> fst ` set nm \<and> edgeTo e \<in> fst ` set nm"
    and adj: "\<And>k. neighborsOf adjacency k = targets es k"
  shows "kahnInv nm es (fst (relax adjacency deg visited current)) (visited @ [current])
           (pushNode nm result current)
           (queue @ sortByY nm (snd (relax adjacency deg visited current)))"
proof -
  let ?K = "fst ` set nm"
  let ?ns = "targets es current"
  let ?vis = "visited @ [current]"
  let ?r = "relax adjacency deg visited current"
  note d = kahnInvD [OF inv]
  have rel: "?r = foldl (relaxStep ?vis) (deg, []) ?ns"
    by (simp add: relax_def adj)
  have cur: "current \<in> ?K" using d(5) by simp
  have qK: "set queue \<subseteq> ?K" using d(5) by simp
  have nsK: "set ?ns \<subseteq> ?K"
  proof
    fix k assume "k \<in> set ?ns"
    then obtain e where "e \<in> set es" "edgeTo e = k" by (auto simp: targets_def)
    then show "k \<in> ?K" using acc by blast
  qed
  note degK = d(4)
  have snoc: "indegFrom es ?vis k + count_list ?ns k = indegFrom es visited k" for k
    using unvisited by (rule indegFrom_snoc)
  have pre: "\<forall>k \<in> set ?ns. \<exists>d. mapGet deg k = Some d \<and> count_list ?ns k \<le> d"
  proof
    fix k assume "k \<in> set ?ns"
    then have "k \<in> ?K" using nsK by blast
    then have "mapGet deg k = Some (indegFrom es visited k)" by (rule degK)
    moreover have "count_list ?ns k \<le> indegFrom es visited k" using snoc [of k] by simp
    ultimately show "\<exists>d. mapGet deg k = Some d \<and> count_list ?ns k \<le> d" by blast
  qed
  note f = foldl_relaxStep [OF pre, of ?vis "[]"]
  note f1 = f [THEN conjunct1, rule_format]
  note f2 = f [THEN conjunct2]
  have deg': "mapGet (fst ?r) k = Some (indegFrom es ?vis k)" if "k \<in> ?K" for k
  proof (cases "k \<in> set ?ns")
    case True
    then have "mapGet (fst ?r) k = Some (the (mapGet deg k) - count_list ?ns k)"
      using f1 [of k] unfolding rel by simp
    then show ?thesis using degK [OF that] snoc [of k] by simp
  next
    case False
    then have "count_list ?ns k = 0" by (simp add: count_list_0_iff)
    moreover have "mapGet (fst ?r) k = mapGet deg k" using f1 [of k] False unfolding rel by simp
    ultimately show ?thesis using degK [OF that] snoc [of k] by simp
  qed
  have nxt: "set (snd ?r) = {k \<in> set ?ns. the (mapGet deg k) = count_list ?ns k \<and> k \<notin> set ?vis}"
    using f2 unfolding rel by simp
  have nxt_ns: "set (snd ?r) \<subseteq> set ?ns" unfolding nxt by blast
  have nxt_zero: "indegFrom es ?vis q = 0" if "q \<in> set (snd ?r)" for q
  proof -
    from that have q: "q \<in> set ?ns" "the (mapGet deg q) = count_list ?ns q" unfolding nxt by simp_all
    then have "q \<in> ?K" using nsK by blast
    then show ?thesis using degK [of q] q(2) snoc [of q] by simp
  qed
  show ?thesis
  proof (rule kahnInvI)
    show "set ?vis \<subseteq> ?K" using d(1) cur by simp
    show "distinct ?vis" using d(2) unvisited by simp
    show "pushNode nm result current = map (\<lambda>k. the (mapGet nm k)) ?vis"
    proof -
      obtain n where n: "mapGet nm current = Some n"
        using cur mapGet_keys [of nm current] by auto
      show ?thesis using d(3) by (simp add: pushNode_def n)
    qed
    show "mapGet (fst ?r) k = Some (indegFrom es ?vis k)" if "k \<in> ?K" for k
      using that by (rule deg')
    show "set (queue @ sortByY nm (snd ?r)) \<subseteq> ?K"
      using qK nxt_ns nsK by (auto simp: set_sortByY)
    show "indegFrom es ?vis q = 0"
      if "q \<in> set (queue @ sortByY nm (snd ?r))" "q \<notin> set ?vis" for q
    proof (cases "q \<in> set queue")
      case True
      then have "indegFrom es visited q = 0" using d(6) [of q] that(2) by simp
      then show ?thesis using indegFrom_mono [of es visited current q] by simp
    next
      case False
      then have "q \<in> set (snd ?r)" using that(1) by (simp add: set_sortByY)
      then show ?thesis by (rule nxt_zero)
    qed
    show "k \<in> set (queue @ sortByY nm (snd ?r))"
      if "k \<in> ?K" "k \<notin> set ?vis" "indegFrom es ?vis k = 0" for k
    proof (cases "indegFrom es visited k = 0")
      case True
      have "k \<notin> set visited" using that(2) by simp
      from d(7) [OF that(1) this True] have "k \<in> set (current # queue)" .
      then show ?thesis using that(2) by simp
    next
      case False
      then have c: "count_list ?ns k = indegFrom es visited k" "0 < count_list ?ns k"
        using snoc [of k] that(3) by simp_all
      then have "k \<in> set ?ns" using count_list_0_iff [of ?ns k] by simp
      moreover have "the (mapGet deg k) = count_list ?ns k" using degK [OF that(1)] c by simp
      ultimately have "k \<in> set (snd ?r)" using that(2) unfolding nxt by simp
      then show ?thesis by (simp add: set_sortByY)
    qed
    show "edgeFrom e \<in> set ?vis" if "e \<in> set es" "edgeTo e \<in> set ?vis" for e
    proof (cases "edgeTo e \<in> set visited")
      case True
      from d(8) [OF that(1) True] show ?thesis by simp
    next
      case False
      then have to: "edgeTo e = current" using that(2) by simp
      have "indegFrom es visited current = 0" using d(6) [of current] unvisited by simp
      then have "filter (\<lambda>e. edgeTo e = current \<and> edgeFrom e \<notin> set visited) es = []"
        by (simp add: indegFrom_def)
      then have "edgeFrom e \<in> set visited"
        using that(1) to unfolding filter_empty_conv by blast
      then show ?thesis by simp
    qed
    show "before ?vis (edgeFrom e) (edgeTo e)" if "e \<in> set es" "edgeTo e \<in> set ?vis" for e
    proof (cases "edgeTo e \<in> set visited")
      case True
      from d(9) [OF that(1) True] show ?thesis by (rule before_append)
    next
      case False
      then have to: "edgeTo e = current" using that(2) by simp
      have "indegFrom es visited current = 0" using d(6) [of current] unvisited by simp
      then have "filter (\<lambda>e. edgeTo e = current \<and> edgeFrom e \<notin> set visited) es = []"
        by (simp add: indegFrom_def)
      then have "edgeFrom e \<in> set visited"
        using that(1) to unfolding filter_empty_conv by blast
      then show ?thesis using before_snoc [of "edgeFrom e" visited current] to by simp
    qed
  qed
qed

lemma kahnLoop_inv:
  assumes "kahnInv nm es deg visited result queue"
    and "\<forall>e \<in> set es. edgeFrom e \<in> fst ` set nm \<and> edgeTo e \<in> fst ` set nm"
    and "\<forall>k. neighborsOf adjacency k = targets es k"
  shows "\<exists>deg'. kahnInv nm es deg' (fst (kahnLoop nm adjacency deg visited result queue))
                  (snd (kahnLoop nm adjacency deg visited result queue)) []"
  using assms
proof (induction nm adjacency deg visited result queue rule: kahnLoop.induct)
  case (1 nm adjacency inDegree visited result)
  then show ?case by auto
next
  case (2 nm adjacency inDegree visited result current queue)
  show ?case
  proof (cases "current \<in> set visited")
    case True
    have "kahnInv nm es inDegree visited result queue"
      using "2.prems"(1) True by (rule kahnInv_skip)
    from "2.IH"(1) [OF True this "2.prems"(2,3)] show ?thesis using True by simp
  next
    case False
    have adj: "neighborsOf adjacency k = targets es k" for k using "2.prems"(3) by blast
    have "kahnInv nm es (fst (relax adjacency inDegree visited current)) (visited @ [current])
           (pushNode nm result current)
           (queue @ sortByY nm (snd (relax adjacency inDegree visited current)))"
      using "2.prems"(1) False "2.prems"(2) adj by (rule kahnInv_visit)
    from "2.IH"(2) [OF False this "2.prems"(2,3)] show ?thesis using False by simp
  qed
qed

subsection \<open>The result\<close>

definition edgePairs :: "EdgeData list \<Rightarrow> (string \<times> string) set" where
  "edgePairs es = (\<lambda>e. (edgeFrom e, edgeTo e)) ` set es"

lemma kahnInv_initial:
  assumes "\<forall>e \<in> set es. edgeFrom e \<in> fst ` set nm \<and> edgeTo e \<in> fst ` set nm"
  shows "kahnInv nm es (flowInDegree nm es) [] [] (initialQueue nm (flowInDegree nm es))"
proof (rule kahnInvI)
  let ?deg = "flowInDegree nm es"
  have to: "\<forall>e \<in> set es. edgeTo e \<in> fst ` set nm" using assms by blast
  note p = flowInDegree_props [OF to]
  have q: "set (initialQueue nm ?deg) = {k. (k, 0) \<in> set ?deg}"
    by (auto simp: initialQueue_def set_sortByY intro: rev_image_eqI)
  have zero: "(k, 0) \<in> set ?deg \<longleftrightarrow> mapGet ?deg k = Some 0" for k
    using p(2) by (rule mapGet_entry)
  show "set [] \<subseteq> fst ` set nm" by simp
  show "distinct ([]::string list)" by simp
  show "[] = map (\<lambda>k. the (mapGet nm k)) []" by simp
  show "mapGet ?deg k = Some (indegFrom es [] k)" if "k \<in> fst ` set nm" for k
    using that by (rule p(3))
  show "set (initialQueue nm ?deg) \<subseteq> fst ` set nm"
  proof
    fix k assume "k \<in> set (initialQueue nm ?deg)"
    then have "(k, 0) \<in> set ?deg" unfolding q by simp
    then have "k \<in> fst ` set ?deg" by (rule rev_image_eqI) simp
    then show "k \<in> fst ` set nm" unfolding p(1) .
  qed
  show "indegFrom es [] k = 0" if "k \<in> set (initialQueue nm ?deg)" "k \<notin> set []" for k
  proof -
    from that(1) have e: "(k, 0) \<in> set ?deg" unfolding q by simp
    then have "k \<in> fst ` set ?deg" by (rule rev_image_eqI) simp
    then have "k \<in> fst ` set nm" unfolding p(1) .
    from p(3) [OF this] e show ?thesis unfolding zero by simp
  qed
  show "k \<in> set (initialQueue nm ?deg)"
    if "k \<in> fst ` set nm" "k \<notin> set []" "indegFrom es [] k = 0" for k
    using p(3) [OF that(1)] that(3) unfolding q zero by simp
  show "edgeFrom e \<in> set []" if "e \<in> set es" "edgeTo e \<in> set []" for e
    using that(2) by simp
  show "before [] (edgeFrom e) (edgeTo e)" if "e \<in> set es" "edgeTo e \<in> set []" for e
    using that(2) by simp
qed

text \<open>
  When the queue is empty and the edges have no cycle, every node has been visited:
  an unvisited node would have an unvisited predecessor, and so on for ever.
\<close>

lemma kahnInv_all_visited:
  assumes inv: "kahnInv nm es deg visited result []"
    and acc: "\<forall>e \<in> set es. edgeFrom e \<in> fst ` set nm \<and> edgeTo e \<in> fst ` set nm"
    and acy: "acyclic (edgePairs es)"
  shows "set visited = fst ` set nm"
proof (rule ccontr)
  note d = kahnInvD [OF inv]
  let ?U = "fst ` set nm - set visited"
  assume "set visited \<noteq> fst ` set nm"
  then obtain x where x: "x \<in> ?U" using d(1) by blast
  have "finite (edgePairs es)" by (simp add: edgePairs_def)
  then have "wf (edgePairs es)" using acy by (rule finite_acyclic_wf)
  from wfE_min [OF this x] obtain z where z: "z \<in> ?U"
    "\<And>y. (y, z) \<in> edgePairs es \<Longrightarrow> y \<notin> ?U" by blast
  have "indegFrom es visited z \<noteq> 0" using d(7) [of z] z(1) by auto
  then have "filter (\<lambda>e. edgeTo e = z \<and> edgeFrom e \<notin> set visited) es \<noteq> []"
    by (simp add: indegFrom_def)
  then obtain e where e: "e \<in> set es" "edgeTo e = z" "edgeFrom e \<notin> set visited"
    unfolding filter_empty_conv by blast
  have "(edgeFrom e, z) \<in> edgePairs es" using e(1,2) by (auto simp: edgePairs_def)
  then have "edgeFrom e \<notin> ?U" by (rule z(2))
  moreover have "edgeFrom e \<in> fst ` set nm" using acc e(1) by blast
  ultimately show False using e(3) by simp
qed

text \<open>
  C4. Let the geometry map have distinct keys and store every node under its own id,
  and let the edges have both endpoints in the map (accepted edges) and no cycle. Then
  the node list of the topological sort has every node of the map exactly once, and
  for every edge the source stands at an earlier position than the destination.
\<close>

theorem topologicalSort_valid:
  assumes keys: "distinct (map fst nm)"
    and ids: "\<forall>kn \<in> set nm. nodeIdent (snd kn) = fst kn"
    and acc: "\<forall>e \<in> set es. edgeFrom e \<in> fst ` set nm \<and> edgeTo e \<in> fst ` set nm"
    and acy: "acyclic (edgePairs es)"
  shows "length (topologicalSort nm es) = length nm
       \<and> distinct (map nodeIdent (topologicalSort nm es))
       \<and> set (topologicalSort nm es) = snd ` set nm
       \<and> (\<forall>e \<in> set es. before (map nodeIdent (topologicalSort nm es)) (edgeFrom e) (edgeTo e))"
proof -
  let ?deg = "flowInDegree nm es"
  let ?adj = "flowAdjacency nm es"
  let ?r = "kahnLoop nm ?adj ?deg [] [] (initialQueue nm ?deg)"
  let ?v = "fst ?r"
  have src: "\<forall>e \<in> set es. edgeFrom e \<in> fst ` set nm" using acc by blast
  have adj: "\<forall>k. neighborsOf ?adj k = targets es k"
    using flowAdjacency_neighbors [OF src] by blast
  from kahnLoop_inv [OF kahnInv_initial [OF acc] acc adj]
  obtain deg' where inv: "kahnInv nm es deg' ?v (snd ?r) []" by blast
  note d = kahnInvD [OF inv]
  have all: "set ?v = fst ` set nm" using inv acc acy by (rule kahnInv_all_visited)
  have rest: "filter (\<lambda>kn. fst kn \<notin> set ?v) nm = []"
    unfolding filter_empty_conv all by simp
  have out: "topologicalSort nm es = map (\<lambda>k. the (mapGet nm k)) ?v"
    using d(3) by (simp add: topologicalSort_def Let_def rest)
  have look: "mapGet nm k = Some n \<longleftrightarrow> (k, n) \<in> set nm" for k n
    using mapGet_entry [OF keys, of k n] by simp
  have ident: "nodeIdent (the (mapGet nm k)) = k" if "k \<in> set ?v" for k
  proof -
    from that obtain n where n: "(k, n) \<in> set nm" unfolding all by auto
    then have "mapGet nm k = Some n" unfolding look .
    then show ?thesis using ids n by auto
  qed
  have idents: "map nodeIdent (topologicalSort nm es) = ?v"
    unfolding out using ident by (simp add: map_idI)
  have len: "length (topologicalSort nm es) = length nm"
  proof -
    have "length ?v = card (set ?v)" using d(2) by (simp add: distinct_card)
    also have "\<dots> = card (set (map fst nm))" unfolding all by simp
    also have "\<dots> = length (map fst nm)" using keys by (rule distinct_card)
    finally show ?thesis unfolding out by simp
  qed
  have nodes: "set (topologicalSort nm es) = snd ` set nm"
  proof
    show "set (topologicalSort nm es) \<subseteq> snd ` set nm"
    proof
      fix n assume "n \<in> set (topologicalSort nm es)"
      then obtain k where k: "k \<in> set ?v" "n = the (mapGet nm k)" unfolding out by auto
      from k(1) obtain n' where n': "(k, n') \<in> set nm" unfolding all by auto
      then have "mapGet nm k = Some n'" unfolding look .
      then show "n \<in> snd ` set nm" using k(2) n' by (auto intro: rev_image_eqI)
    qed
    show "snd ` set nm \<subseteq> set (topologicalSort nm es)"
    proof
      fix n assume "n \<in> snd ` set nm"
      then obtain k where k: "(k, n) \<in> set nm" by auto
      then have "mapGet nm k = Some n" unfolding look .
      moreover have "k \<in> set ?v" unfolding all using k by (auto intro: rev_image_eqI)
      ultimately show "n \<in> set (topologicalSort nm es)" unfolding out by (auto intro: rev_image_eqI)
    qed
  qed
  have order: "before (map nodeIdent (topologicalSort nm es)) (edgeFrom e) (edgeTo e)"
    if "e \<in> set es" for e
  proof -
    have "edgeTo e \<in> set ?v" unfolding all using acc that by blast
    from d(9) [OF that this] show ?thesis unfolding idents .
  qed
  show ?thesis using len d(2) nodes order unfolding idents by blast
qed

definition flowExampleNode :: "string \<Rightarrow> real \<Rightarrow> NodeData" where
  "flowExampleNode k v = \<lparr>nodeIdent = k, nodeLabel = k, nodeX = 0, nodeY = v, nodeWidth = 100,
                          nodeHeight = 40, shape = rect\<rparr>"

definition flowExampleMap :: nodeMap where
  "flowExampleMap = [(''C'', flowExampleNode ''C'' 200), (''A'', flowExampleNode ''A'' 0),
                     (''B'', flowExampleNode ''B'' 100)]"

definition flowExampleEdges :: "EdgeData list" where
  "flowExampleEdges = acceptEdges flowExampleMap
     [\<lparr>leFrom = ''A'', leTo = ''B'', leLabel = None\<rparr>, \<lparr>leFrom = ''B'', leTo = ''C'', leLabel = None\<rparr>,
      \<lparr>leFrom = ''A'', leTo = ''C'', leLabel = None\<rparr>, \<lparr>leFrom = ''A'', leTo = ''Z'', leLabel = None\<rparr>]"

lemma flowExample_pairs:
  "map (\<lambda>e. (edgeFrom e, edgeTo e)) flowExampleEdges = [(''A'', ''B''), (''B'', ''C''), (''A'', ''C'')]"
  by code_simp

lemma flowExample_acyclic: "acyclic (edgePairs flowExampleEdges)"
proof -
  have "edgePairs flowExampleEdges = set (map (\<lambda>e. (edgeFrom e, edgeTo e)) flowExampleEdges)"
    by (simp add: edgePairs_def)
  then have p: "edgePairs flowExampleEdges = {(''A'', ''B''), (''B'', ''C''), (''A'', ''C'')}"
    unfolding flowExample_pairs by simp
  show ?thesis
    unfolding p
    by (rule acyclicI_order [where f = "\<lambda>s. if s = ''A'' then 2 else if s = ''B'' then 1 else (0::nat)"])
       auto
qed

theorem topologicalSort_valid_witness:
  "distinct (map fst flowExampleMap)
   \<and> acyclic (edgePairs flowExampleEdges)
   \<and> length (topologicalSort flowExampleMap flowExampleEdges) = 3
   \<and> before (map nodeIdent (topologicalSort flowExampleMap flowExampleEdges)) ''A'' ''B''
   \<and> before (map nodeIdent (topologicalSort flowExampleMap flowExampleEdges)) ''B'' ''C''
   \<and> before (map nodeIdent (topologicalSort flowExampleMap flowExampleEdges)) ''A'' ''C''"
proof -
  have keys: "distinct (map fst flowExampleMap)" by (simp add: flowExampleMap_def)
  have ids: "\<forall>kn \<in> set flowExampleMap. nodeIdent (snd kn) = fst kn"
    by (simp add: flowExampleMap_def flowExampleNode_def)
  have acc: "\<forall>e \<in> set flowExampleEdges.
      edgeFrom e \<in> fst ` set flowExampleMap \<and> edgeTo e \<in> fst ` set flowExampleMap"
    unfolding flowExampleEdges_def using acceptEdges_endpoints by blast
  note t = topologicalSort_valid [OF keys ids acc flowExample_acyclic]
  have len: "length (topologicalSort flowExampleMap flowExampleEdges) = 3"
    using t by (simp add: flowExampleMap_def)
  have ord: "before (map nodeIdent (topologicalSort flowExampleMap flowExampleEdges)) a b"
    if "(a, b) \<in> set (map (\<lambda>e. (edgeFrom e, edgeTo e)) flowExampleEdges)" for a b
    using t that by auto
  show ?thesis
    using keys flowExample_acyclic len ord [of "''A''" "''B''"] ord [of "''B''" "''C''"]
      ord [of "''A''" "''C''"]
    unfolding flowExample_pairs by simp
qed

section \<open>Properties of the sequencer\<close>

subsection \<open>The opacity ramp\<close>

text \<open>
  For a whole-number step \<open>s > 0\<close>, a whole-number frame \<open>f\<close> and a slot \<open>k\<close>, all up
  to \<open>2^32\<close>, no intermediate result leaves the range of the doubles: the opacity is
  \<open>0\<close> before frame \<open>k * s\<close>, is \<open>min ((f - k * s) / (s / 2)) 1\<close> from there on, and lies
  between \<open>0\<close> and \<open>1\<close>.
\<close>

lemma getOpacity_whole:
  fixes s f k :: nat
  assumes "0 < s" "s \<le> 2 ^ 32" "f \<le> 2 ^ 32" "k \<le> 2 ^ 32"
  shows "getOpacity (Num (real s)) (Num (real f)) (int k) =
           Num (if real f < real k * real s then 0
                else min ((real f - real k * real s) / (real s / 2)) 1)"
proof -
  define ks where "ks = real k * real s"
  have big: "(2::real) ^ 32 * 2 ^ 32 \<le> 2 ^ 128" "(2::real) ^ 32 \<le> 2 ^ 128"
    "(1::real) / 2 ^ 128 \<le> 1 / 2" "(1::real) / 2 ^ 128 \<le> 2 / 2 ^ 32" "(2::real) * 2 ^ 32 \<le> 2 ^ 128"
    by simp_all
  have rs: "1 \<le> real s" "real s \<le> 2 ^ 32" "real f \<le> 2 ^ 32" "real k \<le> 2 ^ 32"
    using assms by (simp_all add: Suc_leI)
  have ks_ub: "ks \<le> 2 ^ 128"
  proof -
    have "ks \<le> 2 ^ 32 * 2 ^ 32" unfolding ks_def using rs by (intro mult_mono) simp_all
    with big(1) show ?thesis by linarith
  qed
  have ks_lb: "ks = 0 \<or> 1 / 2 ^ 128 \<le> ks"
  proof (cases "k = 0")
    case True
    then show ?thesis by (simp add: ks_def)
  next
    case False
    then have "1 \<le> real k" by simp
    with rs(1) have "1 * 1 \<le> real k * real s" by (intro mult_mono) simp_all
    then have "1 / 2 ^ 128 \<le> ks" unfolding ks_def using big(3) by linarith
    then show ?thesis by (rule disjI2)
  qed
  have start: "jmul (Num (real k)) (Num (real s)) = Num ks"
    using fromReal_nonneg [OF ks_lb ks_ub] by (simp add: ks_def)
  show ?thesis
  proof (cases "real f < ks")
    case True
    then show ?thesis
      by (simp add: getOpacity_def Let_def start ks_def [symmetric] del: jmul.simps)
  next
    case False
    define dn where "dn = f - k * s"
    have ge: "k * s \<le> f" using False by (simp add: ks_def flip: of_nat_mult)
    have dn: "real dn = real f - ks" using ge by (simp add: dn_def ks_def of_nat_diff)
    have "\<bar>real f - ks\<bar> \<le> 2 ^ 128" using dn rs(3) big(2) ge
      by (simp add: ks_def flip: of_nat_mult)
    then have diff: "jsub (Num (real f)) (Num ks) = Num (real f - ks)"
      by (simp add: jsub_def fromSum_mid)
    have "1 / 2 ^ 128 \<le> real s * (1 / 2)" "real s * (1 / 2) \<le> 2 ^ 128"
      using rs(1,2) big by simp_all
    then have half: "jmul (Num (real s)) (Num (1 / 2)) = Num (real s / 2)"
      using fromReal_nonneg [of "real s * (1 / 2)"] by simp
    define x where "x = (real f - ks) / (real s / 2)"
    have x: "x = 2 * real dn / real s" by (simp add: x_def dn)
    have x_lb: "x = 0 \<or> 1 / 2 ^ 128 \<le> x"
    proof (cases "dn = 0")
      case True
      then show ?thesis by (simp add: x)
    next
      case False
      then have "1 \<le> real dn" by simp
      then have "2 / real s \<le> x" unfolding x using rs(1) by (simp add: divide_right_mono)
      moreover have "2 / 2 ^ 32 \<le> 2 / real s" using rs(1,2) by (simp add: frac_le)
      ultimately have "1 / 2 ^ 128 \<le> x" using big(4) by linarith
      then show ?thesis by (rule disjI2)
    qed
    have "real dn \<le> 2 ^ 32" using rs(3) by (simp add: dn_def)
    then have "2 * real dn / real s \<le> 2 * 2 ^ 32 / 1"
      using rs(1) by (intro frac_le) simp_all
    then have x_ub: "x \<le> 2 ^ 128" using big(5) by (simp add: x)
    have "real s / 2 \<noteq> 0" using rs(1) by simp
    then have quot: "jdiv (Num (real f - ks)) (Num (real s / 2)) = Num x"
      using fromReal_nonneg [OF x_lb x_ub] by (simp add: x_def)
    show ?thesis using False
      by (simp add: getOpacity_def Let_def start diff half quot ks_def [symmetric]
          del: jmul.simps jdiv.simps) (simp add: x_def)
  qed
qed

lemma getOpacity_unit:
  fixes s f k :: nat
  assumes "0 < s" "s \<le> 2 ^ 32" "f \<le> 2 ^ 32" "k \<le> 2 ^ 32"
  shows "\<exists>v. getOpacity (Num (real s)) (Num (real f)) (int k) = Num v \<and> 0 \<le> v \<and> v \<le> 1"
proof -
  have "0 \<le> (real f - real k * real s) / (real s / 2)" if "\<not> real f < real k * real s"
    using that assms(1) by simp
  then have "0 \<le> (if real f < real k * real s then 0
                 else min ((real f - real k * real s) / (real s / 2)) 1)
      \<and> (if real f < real k * real s then 0
           else min ((real f - real k * real s) / (real s / 2)) 1) \<le> 1"
    by simp
  with getOpacity_whole [OF assms] show ?thesis by blast
qed

lemma getOpacity_example: "getOpacity (Num 20) (Num 45) 2 = Num (1 / 2)"
  using getOpacity_whole [of 20 45 2] by simp

text \<open>
  C6. The step \<open>2^-1074\<close>, the smallest positive double (written \<open>5e-324\<close>), is
  greater than \<open>0\<close>, but half of it is rounded to \<open>0\<close>: at frame \<open>0\<close> the opacity of slot
  \<open>0\<close> is \<open>0 / 0\<close>, that is NaN, not a number between \<open>0\<close> and \<open>1\<close>. The step
  \<open>Infinity\<close> gives NaN there as well.
\<close>

theorem getOpacity_least_step_NaN:
  "jless (Num 0) (Num (1 / 2 ^ 1074))
   \<and> getOpacity (Num (1 / 2 ^ 1074)) (Num 0) 0 = NaN
   \<and> isNaN (getOpacity (Num (1 / 2 ^ 1074)) (Num 0) 0)
   \<and> getOpacity PosInf (Num 0) 0 = NaN"
proof -
  have s1: "jmul (Num (real_of_int 0)) (Num (1 / 2 ^ 1074)) = Num 0"
    by (simp add: fromReal_zero)
  have s2: "jmul (Num (1 / 2 ^ 1074)) (Num 0.5) = Num 0"
    unfolding jmul.simps by (rule fromReal_half_least)
  have s3: "jsub (Num 0) (Num 0) = Num 0" by (simp add: jsub_def fromSum_mid)
  have a: "getOpacity (Num (1 / 2 ^ 1074)) (Num 0) 0 = NaN"
    unfolding getOpacity_def Let_def s1 s2 by (simp add: s3)
  have b: "getOpacity PosInf (Num 0) 0 = NaN"
    by (simp add: getOpacity_def Let_def jsub_def)
  have c: "jless (Num 0) (Num (1 / 2 ^ 1074))" by simp
  show ?thesis using a b c by (simp add: isNaN_def)
qed

subsection \<open>The flowchart reveal order\<close>

lemma flowSequenceStep_append: "flowSequenceStep n m sq i = sq @ flowGroup n m i"
  by (simp add: flowSequenceStep_def flowGroup_def Let_def)

lemma foldl_flowSequenceStep:
  "foldl (flowSequenceStep n m) acc is = acc @ concat (map (flowGroup n m) is)"
  by (induction "is" arbitrary: acc) (simp_all add: flowSequenceStep_append)

lemma flowSequence_concat: "flowSequence n m = concat (map (flowGroup n m) [0..<max n m])"
  by (simp add: flowSequence_def foldl_flowSequenceStep)

lemma flowPrefix_layout:
  "length (concat (map (flowGroup n m) [0..<k])) = min k n + min k m
   \<and> (\<forall>i. i < min k n \<longrightarrow> concat (map (flowGroup n m) [0..<k]) ! (i + min i m) = \<lparr>etype = node, index = i\<rparr>)
   \<and> (\<forall>j. j < min k m \<longrightarrow> concat (map (flowGroup n m) [0..<k]) ! (j + min j n + (if j < n then 1 else 0)) = \<lparr>etype = edge, index = j\<rparr>)"
proof (induction k)
  case 0
  show ?case by simp
next
  case (Suc k)
  let ?p = "concat (map (flowGroup n m) [0..<k])"
  have len: "length ?p = min k n + min k m" using Suc by blast
  have app: "concat (map (flowGroup n m) [0..<Suc k]) = ?p @ flowGroup n m k" by simp
  have A: "length (?p @ flowGroup n m k) = min (Suc k) n + min (Suc k) m"
    using len by (auto simp: flowGroup_def min_def)
  have B: "(?p @ flowGroup n m k) ! (i + min i m) = \<lparr>etype = node, index = i\<rparr>" if "i < min (Suc k) n" for i
  proof (cases "i < k")
    case True
    then have "i + min i m < length ?p" using that len by (auto simp: min_def)
    then show ?thesis using Suc True that by (simp add: nth_append)
  next
    case False
    then have "i = k" using that by simp
    then show ?thesis using that len by (auto simp: nth_append flowGroup_def min_def)
  qed
  have C: "(?p @ flowGroup n m k) ! (j + min j n + (if j < n then 1 else 0)) = \<lparr>etype = edge, index = j\<rparr>" if "j < min (Suc k) m" for j
  proof (cases "j < k")
    case True
    then have "j + min j n + (if j < n then 1 else 0) < length ?p" using that len by (auto simp: min_def)
    then show ?thesis using Suc True that by (simp add: nth_append)
  next
    case False
    then have "j = k" using that by simp
    then show ?thesis using that len by (auto simp: nth_append flowGroup_def min_def)
  qed
  show ?case unfolding app using A B C by blast
qed

lemma findIndexFrom_distinct:
  "distinct xs \<Longrightarrow> p < length xs \<Longrightarrow> findIndexFrom k (\<lambda>s. s = xs ! p) xs = k + int p"
proof (induction xs arbitrary: k p)
  case Nil
  then show ?case by simp
next
  case (Cons x xs)
  show ?case
  proof (cases p)
    case 0
    then show ?thesis by simp
  next
    case (Suc q)
    then have "x \<noteq> xs ! q" using Cons.prems by auto
    then show ?thesis using Cons Suc by simp
  qed
qed

lemma seqEntry_eq: "(etype s = t \<and> index s = i) = (s = \<lparr>etype = t, index = i\<rparr>)"
  by (cases s) auto

lemma flowSlot_nth:
  "distinct sq \<Longrightarrow> p < length sq \<Longrightarrow> sq ! p = \<lparr>etype = t, index = i\<rparr> \<Longrightarrow> flowSlot sq t i = int p"
  using findIndexFrom_distinct [of sq p 0]
  by (simp add: flowSlot_def findIndex_def seqEntry_eq)

lemma set_flowSequence:
  "set (flowSequence n m) = (\<lambda>i. \<lparr>etype = node, index = i\<rparr>) ` {..<n} \<union> (\<lambda>i. \<lparr>etype = edge, index = i\<rparr>) ` {..<m}"
  by (auto simp: flowSequence_concat flowGroup_def split: if_splits)

lemma length_flowSequence: "length (flowSequence n m) = n + m"
  using flowPrefix_layout [of n m "max n m"] by (simp add: flowSequence_concat)

lemma distinct_flowSequence: "distinct (flowSequence n m)"
proof -
  have inj1: "inj_on (\<lambda>i. \<lparr>etype = node, index = i\<rparr>) {..<n}" by (simp add: inj_on_def)
  have inj2: "inj_on (\<lambda>i. \<lparr>etype = edge, index = i\<rparr>) {..<m}" by (simp add: inj_on_def)
  have disj: "(\<lambda>i. \<lparr>etype = node, index = i\<rparr>) ` {..<n} \<inter> (\<lambda>i. \<lparr>etype = edge, index = i\<rparr>) ` {..<m} = {}"
    by auto
  have "card (set (flowSequence n m)) = n + m"
    unfolding set_flowSequence using inj1 inj2 disj
    by (simp add: card_Un_disjoint card_image)
  then show ?thesis by (simp add: card_distinct length_flowSequence)
qed

lemma flowSlot_node:
  assumes "i < n" shows "flowSlot (flowSequence n m) node i = int (if i \<le> m then 2 * i else i + m)"
proof -
  have nth: "flowSequence n m ! (i + min i m) = \<lparr>etype = node, index = i\<rparr>"
    using flowPrefix_layout [of n m "max n m"] assms by (simp add: flowSequence_concat)
  have "i + min i m < length (flowSequence n m)" using assms by (simp add: length_flowSequence min_def)
  from flowSlot_nth [OF distinct_flowSequence this nth] show ?thesis by (simp add: min_def)
qed

lemma flowSlot_edge:
  assumes "j < m" shows "flowSlot (flowSequence n m) edge j = int (if j < n then 2 * j + 1 else j + n)"
proof -
  have nth: "flowSequence n m ! (j + min j n + (if j < n then 1 else 0)) = \<lparr>etype = edge, index = j\<rparr>"
    using flowPrefix_layout [of n m "max n m"] assms by (simp add: flowSequence_concat)
  have "j + min j n + (if j < n then 1 else 0) < length (flowSequence n m)" using assms by (auto simp add: length_flowSequence min_def)
  from flowSlot_nth [OF distinct_flowSequence this nth] show ?thesis by (auto simp add: min_def)
qed

lemma flowSlot_positions:
  "map (\<lambda>e. flowSlot (flowSequence n m) (etype e) (index e)) (flowSequence n m) = map int [0..<n + m]"
proof (rule nth_equalityI)
  show "length (map (\<lambda>e. flowSlot (flowSequence n m) (etype e) (index e)) (flowSequence n m)) = length (map int [0..<n + m])"
    by (simp add: length_flowSequence)
next
  fix p assume "p < length (map (\<lambda>e. flowSlot (flowSequence n m) (etype e) (index e)) (flowSequence n m))"
  then have p: "p < length (flowSequence n m)" by simp
  have "flowSequence n m ! p = \<lparr>etype = etype (flowSequence n m ! p), index = index (flowSequence n m ! p)\<rparr>" by simp
  from flowSlot_nth [OF distinct_flowSequence p this]
  show "map (\<lambda>e. flowSlot (flowSequence n m) (etype e) (index e)) (flowSequence n m) ! p = map int [0..<n + m] ! p"
    using p by (simp add: length_flowSequence)
qed

text \<open>
  C5. For \<open>n\<close> nodes and \<open>m\<close> edges the reveal order interleaves node \<open>i\<close> and edge
  \<open>i\<close> for \<open>i\<close> up to \<open>max n m\<close>, skipping the exhausted list. It has \<open>n + m\<close>
  entries, holds every node and every edge exactly once, and the slots of its entries
  (their \<open>findIndex\<close> positions) are exactly \<open>0, ..., n + m - 1\<close>, each once.
\<close>

theorem flowSequence_slots:
  "flowSequence n m = concat (map (flowGroup n m) [0..<max n m])
   \<and> length (flowSequence n m) = n + m
   \<and> distinct (flowSequence n m)
   \<and> set (flowSequence n m) =
       (\<lambda>i. \<lparr>etype = node, index = i\<rparr>) ` {..<n} \<union> (\<lambda>i. \<lparr>etype = edge, index = i\<rparr>) ` {..<m}
   \<and> map (\<lambda>e. flowSlot (flowSequence n m) (etype e) (index e)) (flowSequence n m)
       = map int [0..<n + m]
   \<and> (\<forall>i<n. flowSlot (flowSequence n m) node i = int (if i \<le> m then 2 * i else i + m))
   \<and> (\<forall>j<m. flowSlot (flowSequence n m) edge j = int (if j < n then 2 * j + 1 else j + n))"
proof (intro conjI allI impI)
  show "flowSequence n m = concat (map (flowGroup n m) [0..<max n m])"
    by (rule flowSequence_concat)
  show "length (flowSequence n m) = n + m"
    by (rule length_flowSequence)
  show "distinct (flowSequence n m)"
    by (rule distinct_flowSequence)
  show "set (flowSequence n m) =
       (\<lambda>i. \<lparr>etype = node, index = i\<rparr>) ` {..<n} \<union> (\<lambda>i. \<lparr>etype = edge, index = i\<rparr>) ` {..<m}"
    by (rule set_flowSequence)
  show "map (\<lambda>e. flowSlot (flowSequence n m) (etype e) (index e)) (flowSequence n m)
       = map int [0..<n + m]"
    by (rule flowSlot_positions)
  show "flowSlot (flowSequence n m) node i = int (if i \<le> m then 2 * i else i + m)"
    if "i < n" for i using that by (rule flowSlot_node)
  show "flowSlot (flowSequence n m) edge j = int (if j < n then 2 * j + 1 else j + n)"
    if "j < m" for j using that by (rule flowSlot_edge)
qed

theorem flowSequence_slots_witness:
  "length (flowSequence 3 1) = 4
   \<and> flowSlot (flowSequence 3 1) node 0 = 0
   \<and> flowSlot (flowSequence 3 1) edge 0 = 1
   \<and> flowSlot (flowSequence 3 1) node 1 = 2
   \<and> flowSlot (flowSequence 3 1) node 2 = 3"
proof -
  note t = flowSequence_slots [of 3 1]
  have len: "length (flowSequence 3 1) = 3 + 1"
    using t by (elim conjE)
  have nodes: "\<forall>i<3. flowSlot (flowSequence 3 1) node i = int (if i \<le> 1 then 2 * i else i + 1)"
    using t by (elim conjE)
  have edges: "\<forall>j<1. flowSlot (flowSequence 3 1) edge j = int (if j < 3 then 2 * j + 1 else j + 3)"
    using t by (elim conjE)
  have n0: "flowSlot (flowSequence 3 1) node 0 = 0" using nodes [rule_format, of 0] by simp
  have n1: "flowSlot (flowSequence 3 1) node 1 = 2" using nodes [rule_format, of 1] by simp
  have n2: "flowSlot (flowSequence 3 1) node 2 = 3" using nodes [rule_format, of 2] by simp
  have e0: "flowSlot (flowSequence 3 1) edge 0 = 1" using edges [rule_format, of 0] by simp
  show ?thesis using len n0 n1 n2 e0 by simp
qed

subsection \<open>The visible count\<close>

lemma countVisible_card: "countVisible fpe frame n = card {i. i < n \<and> started fpe frame (int i)}"
proof -
  have "distinct (filter (\<lambda>i. started fpe frame (int i)) [0..<n])" by simp
  then have "length (filter (\<lambda>i. started fpe frame (int i)) [0..<n])
      = card (set (filter (\<lambda>i. started fpe frame (int i)) [0..<n]))"
    by (simp only: distinct_card)
  also have "set (filter (\<lambda>i. started fpe frame (int i)) [0..<n])
      = {i. i < n \<and> started fpe frame (int i)}"
    by auto
  finally show ?thesis by (simp add: countVisible_def)
qed

lemma visibleSlots_card:
  "visibleSlots fpe frame p = card {k \<in> set (opacitySlots p). started fpe frame k}"
proof -
  have "set (filter (started fpe frame) (opacitySlots p))
      = {k \<in> set (opacitySlots p). started fpe frame k}" by auto
  then show ?thesis by (simp add: visibleSlots_def length_remdups_card_conv)
qed

text \<open>When the slots are exactly \<open>0, ..., n - 1\<close>, both counts agree.\<close>

lemma slots_range_count:
  assumes "set (opacitySlots p) = int ` {..<n}"
  shows "visibleSlots fpe frame p = countVisible fpe frame n"
proof -
  have "{k \<in> int ` {..<n}. started fpe frame k} = int ` {i. i < n \<and> started fpe frame (int i)}"
    by auto
  moreover have "card (int ` {i. i < n \<and> started fpe frame (int i)})
      = card {i. i < n \<and> started fpe frame (int i)}"
    by (intro card_image) (simp add: inj_on_def)
  ultimately show ?thesis
    unfolding visibleSlots_card countVisible_card assms by simp
qed

lemma flow_slots_range:
  "set (opacitySlots (FlowchartD fd)) = int ` {..<length (flowNodes fd) + length (flowEdges fd)}"
proof -
  let ?n = "length (flowNodes fd)" and ?m = "length (flowEdges fd)"
  let ?sq = "flowSequence ?n ?m"
  have "set (map (\<lambda>e. flowSlot ?sq (etype e) (index e)) ?sq) = set (map int [0..<?n + ?m])"
    by (simp only: flowSlot_positions)
  then have "(\<lambda>e. flowSlot ?sq (etype e) (index e)) ` set ?sq = int ` {..<?n + ?m}"
    by (simp add: atLeast0LessThan)
  moreover have "(\<lambda>e. flowSlot ?sq (etype e) (index e)) ` set ?sq
      = flowSlot ?sq node ` {..<?n} \<union> flowSlot ?sq edge ` {..<?m}"
    unfolding set_flowSequence by (simp add: image_Un image_image)
  moreover have "set (opacitySlots (FlowchartD fd)) = flowSlot ?sq node ` {..<?n} \<union> flowSlot ?sq edge ` {..<?m}"
    by (auto simp: Let_def atLeast0LessThan)
  ultimately show ?thesis by simp
qed

lemma range_split: "{..<a + b} = {..<a} \<union> (\<lambda>i. a + i) ` {..<b}" for a b :: nat
proof (rule set_eqI)
  fix x
  show "x \<in> {..<a + b} \<longleftrightarrow> x \<in> {..<a} \<union> (\<lambda>i. a + i) ` {..<b}"
  proof
    assume x: "x \<in> {..<a + b}"
    show "x \<in> {..<a} \<union> (\<lambda>i. a + i) ` {..<b}"
    proof (cases "x < a")
      case True
      then show ?thesis by simp
    next
      case False
      then have "x = a + (x - a)" "x - a \<in> {..<b}" using x by simp_all
      then have "x \<in> (\<lambda>i. a + i) ` {..<b}" by (rule image_eqI)
      then show ?thesis by simp
    qed
  next
    assume "x \<in> {..<a} \<union> (\<lambda>i. a + i) ` {..<b}"
    then show "x \<in> {..<a + b}" by auto
  qed
qed

lemma seq_slots_range:
  "set (opacitySlots (SequenceD sd)) = int ` {..<length (actors sd) + length (messages sd)}"
  unfolding range_split by (simp add: image_Un image_image atLeast0LessThan Un_commute)

lemma state_slots_range:
  "set (opacitySlots (StateD sd)) = int ` {..<length (stateNodes sd) + length (stateTransitions sd)}"
  unfolding range_split by (simp add: image_Un image_image atLeast0LessThan Un_commute)

text \<open>
  For a flowchart, a sequence diagram and a state diagram the slots are exactly
  \<open>0, ..., n - 1\<close> for the \<open>n\<close> counted positions, so the visible count is the number of
  slots of the reveal order that have started.
\<close>

lemma visibleCount_gapless:
  "visibleCount fpe frame (FlowchartD fd) = visibleSlots fpe frame (FlowchartD fd)"
  "visibleCount fpe frame (SequenceD sq) = visibleSlots fpe frame (SequenceD sq)"
  "visibleCount fpe frame (StateD sd) = visibleSlots fpe frame (StateD sd)"
proof -
  show "visibleCount fpe frame (FlowchartD fd) = visibleSlots fpe frame (FlowchartD fd)"
    using slots_range_count [OF flow_slots_range, of fpe frame fd]
    by (simp add: length_flowSequence)
  show "visibleCount fpe frame (SequenceD sq) = visibleSlots fpe frame (SequenceD sq)"
    using slots_range_count [OF seq_slots_range, of fpe frame sq] by simp
  show "visibleCount fpe frame (StateD sd) = visibleSlots fpe frame (StateD sd)"
    using slots_range_count [OF state_slots_range, of fpe frame sd] by simp
qed

text \<open>
  The pie counter filters the segments only: it never exceeds their number, which is
  one less than the total \<open>segments + 1\<close> shown next to it.
\<close>

lemma pie_count_below_total:
  "visibleCount fpe frame (PieD pd) \<le> length (segments pd)"
  "visibleCount fpe frame (PieD pd) < length (opacitySlots (PieD pd))"
proof -
  have "length (filter (\<lambda>i. started fpe frame (int i)) [0..<length (segments pd)])
      \<le> length [0..<length (segments pd)]" by (rule length_filter_le)
  then show "visibleCount fpe frame (PieD pd) \<le> length (segments pd)"
    by (simp add: countVisible_def)
  then show "visibleCount fpe frame (PieD pd) < length (opacitySlots (PieD pd))" by simp
qed

lemma findIndexFrom_map:
  "findIndexFrom k (\<lambda>n. f n = x) xs = findIndexFrom k (\<lambda>y. y = x) (map f xs)"
  by (induction xs arbitrary: k) simp_all

lemma getNodeIndex_ids: "getNodeIndex nodes ident = findIndex (\<lambda>y. y = ident) (map mmId nodes)"
  unfolding getNodeIndex_def findIndex_def by (rule findIndexFrom_map)

lemma pieLayout_length: "length (pieLayout rs V) = length rs"
proof -
  have "length (fst (foldl (pieLayoutStep V) acc xs)) = length (fst acc) + length xs" for acc xs
    by (induction xs arbitrary: acc) (simp_all add: pieLayoutStep_def Let_def)
  then show ?thesis by (simp add: pieLayout_def)
qed

text \<open>With 20 frames per element, position \<open>k\<close> has started at frame \<open>f\<close> when \<open>k * 20 \<le> f\<close>.\<close>

lemma started_20:
  assumes "\<bar>k\<bar> \<le> 1000"
  shows "started (Num 20) (Num f) k = (real_of_int k * 20 \<le> f)"
proof -
  have "\<bar>real_of_int k * 20\<bar> \<le> 1000 * 20"
    using assms by (simp add: abs_mult flip: of_int_abs)
  moreover have "(1000::real) * 20 \<le> 2 ^ 128" by simp
  ultimately have ub: "\<bar>real_of_int k * 20\<bar> \<le> 2 ^ 128" by linarith
  have "fromReal (real_of_int k * 20) = Num (real_of_int k * 20)"
  proof (cases "k = 0")
    case True
    then show ?thesis by (simp add: fromReal_zero)
  next
    case False
    then have "1 \<le> \<bar>k\<bar>" by simp
    then have "1 \<le> \<bar>real_of_int k\<bar>" by (simp flip: of_int_abs)
    then have "1 \<le> \<bar>real_of_int k * 20\<bar>" by (simp add: abs_mult)
    moreover have "(1::real) / 2 ^ 128 \<le> 1" by simp
    ultimately have "1 / 2 ^ 128 \<le> \<bar>real_of_int k * 20\<bar>" by linarith
    then show ?thesis using ub by (rule fromReal_mid)
  qed
  then show ?thesis by (simp add: started_def)
qed

lemma countVisible_examples:
  "countVisible (Num 20) (Num 120) 7 = 7" "countVisible (Num 20) (Num 40) 2 = 2"
proof -
  have u: "[0..<7] = [0, 1, 2, 3, 4, 5, 6::nat]" "[0..<2] = [0, 1::nat]" by code_simp+
  show "countVisible (Num 20) (Num 120) 7 = 7" by (simp add: countVisible_def u started_20)
  show "countVisible (Num 20) (Num 40) 2 = 2" by (simp add: countVisible_def u started_20)
qed

text \<open>
  C2. For the mindmap with a root and three children, at frame 120 with 20 frames
  per element, the reveal order has the four slots \<open>0, ..., 3\<close> (every connection
  shares the slot of its later endpoint) and all four have started, but the
  visible count is 7 (four nodes and three connections). For the pie chart with two
  segments, at frame 40, the three slots \<open>0, 1, 2\<close> (the title and the two segments)
  have all started, but the visible count is 2.
\<close>

theorem visibleCount_not_slots:
  "opacitySlots (MindmapD (parseMindmap mindmapExample)) = [1, 2, 3, 0, 1, 2, 3]
   \<and> visibleSlots (Num 20) (Num 120) (MindmapD (parseMindmap mindmapExample)) = 4
   \<and> visibleCount (Num 20) (Num 120) (MindmapD (parseMindmap mindmapExample)) = 7
   \<and> opacitySlots (PieD (parsePieChart ''pie title Test\<newline>  \"A\" : 60\<newline>  \"B\" : 40'')) = [0, 1, 2]
   \<and> visibleSlots (Num 20) (Num 40) (PieD (parsePieChart ''pie title Test\<newline>  \"A\" : 60\<newline>  \"B\" : 40'')) = 3
   \<and> visibleCount (Num 20) (Num 40) (PieD (parsePieChart ''pie title Test\<newline>  \"A\" : 60\<newline>  \"B\" : 40'')) = 2"
proof -
  let ?m = "parseMindmap mindmapExample"
  let ?p = "parsePieChart ''pie title Test\<newline>  \"A\" : 60\<newline>  \"B\" : 40''"
  have n: "length (mmNodes ?m) = 4"
    using mindmapExample_layout(1) length_map [of mmId "mmNodes ?m"] by simp
  have u: "[0..<4] = [0, 1, 2, 3::nat]" "[0..<2] = [0, 1::nat]" by code_simp+
  have gi: "getNodeIndex (mmNodes ?m) ''node-0'' = 0" "getNodeIndex (mmNodes ?m) ''node-1'' = 1"
    "getNodeIndex (mmNodes ?m) ''node-2'' = 2" "getNodeIndex (mmNodes ?m) ''node-3'' = 3"
    unfolding getNodeIndex_ids mindmapExample_layout(1) by (simp_all add: findIndex_def)
  have ms: "opacitySlots (MindmapD ?m) = [1, 2, 3, 0, 1, 2, 3]"
    by (simp add: mindmapExample_layout(2) n u gi)
  have mv: "visibleSlots (Num 20) (Num 120) (MindmapD ?m) = 4"
    unfolding visibleSlots_def ms by (simp add: started_20)
  have mc: "visibleCount (Num 20) (Num 120) (MindmapD ?m) = 7"
    by (simp add: n mindmapExample_layout(2) countVisible_examples)
  have s: "length (segments ?p) = 2"
    by (simp add: parsePieChart_def pieLayout_length pieRaw_example)
  have ps: "opacitySlots (PieD ?p) = [0, 1, 2]"
    by (simp add: s u)
  have pv: "visibleSlots (Num 20) (Num 40) (PieD ?p) = 3"
    unfolding visibleSlots_def ps by (simp add: started_20)
  have pc: "visibleCount (Num 20) (Num 40) (PieD ?p) = 2"
    by (simp add: s countVisible_examples)
  show ?thesis
    by (rule conjI [OF ms conjI [OF mv conjI [OF mc conjI [OF ps conjI [OF pv pc]]]]])
qed

end
